theory Spec2Isabelle
  imports Complex_Main "HOL-Library.Sublist"
begin

section \<open>Python values used by timecomp.py\<close>

text \<open>
  A Python \<open>str\<close> is a sequence of Unicode code points, so a string is a list of
  naturals; \<open>ustr\<close> turns a literal of the script into that form.  Floats that
  are only ever \<open>0.0\<close>, \<open>1.0\<close> or \<open>2.0\<close> are reals.
\<close>

type_synonym pystr = "nat list"

definition ustr :: "string \<Rightarrow> pystr" where
  "ustr s = map of_char s"

datatype py_error = IndexError | KeyError | ZeroDivisionError | UnicodeEncodeError

text \<open>\<open>str.isspace\<close> on one code point: the whitespace table of CPython.\<close>

definition py_isspace :: "nat \<Rightarrow> bool" where
  "py_isspace c \<longleftrightarrow>
     (9 \<le> c \<and> c \<le> 13) \<or> (28 \<le> c \<and> c \<le> 32) \<or> c = 133 \<or> c = 160 \<or>
     c = 5760 \<or> (8192 \<le> c \<and> c \<le> 8202) \<or> c = 8232 \<or> c = 8233 \<or>
     c = 8239 \<or> c = 8287 \<or> c = 12288"

text \<open>\<open>s.strip()\<close>: whitespace removed at both ends.\<close>

definition strip :: "pystr \<Rightarrow> pystr" where
  "strip s = rev (dropWhile py_isspace (rev (dropWhile py_isspace s)))"

text \<open>
  \<open>s.split(sep)\<close> scans from the left and cuts at every occurrence of \<open>sep\<close> that
  does not overlap the previous cut.  \<open>acc\<close> holds, reversed, the characters of the
  piece being read.  Both separators of the script are non-empty literals (an empty one
  raises ValueError in Python and is never passed here).
\<close>

fun split_from :: "pystr \<Rightarrow> pystr \<Rightarrow> pystr \<Rightarrow> pystr list" where
  "split_from sep acc [] = [rev acc]"
| "split_from sep acc (c # cs) =
     (if sep \<noteq> [] \<and> prefix sep (c # cs)
      then rev acc # split_from sep [] (drop (length sep - 1) cs)
      else split_from sep (c # acc) cs)"

definition str_split :: "pystr \<Rightarrow> pystr \<Rightarrow> pystr list" where
  "str_split s sep = split_from sep [] s"

text \<open>
  \<open>xs[i]\<close> on a list, negative indices counting from the end; \<open>None\<close> stands for
  the IndexError that an index out of range raises.
\<close>

definition list_getitem :: "'a list \<Rightarrow> int \<Rightarrow> 'a option" where
  "list_getitem xs i =
     (if 0 \<le> i
      then (if nat i < length xs then Some (xs ! nat i) else None)
      else (if nat (- i) \<le> length xs then Some (xs ! (length xs - nat (- i))) else None))"

text \<open>\<open>str(n)\<close> for a non-negative integer such as \<open>len(completions)\<close>.\<close>

fun str_of_nat :: "nat \<Rightarrow> pystr" where
  "str_of_nat n = (if n < 10 then [48 + n] else str_of_nat (n div 10) @ [48 + n mod 10])"

declare str_of_nat.simps [simp del]

text \<open>
  A chat message is a dict from keys to strings, a conversation (a prompt or a
  completion) a list of messages.
\<close>

type_synonym message = "string \<rightharpoonup> pystr"
type_synonym conversation = "message list"

text \<open>A list comprehension whose element expression may raise: the first error wins.\<close>

fun comprehension :: "('a \<Rightarrow> py_error + 'b) \<Rightarrow> 'a list \<Rightarrow> py_error + 'b list" where
  "comprehension f [] = Inr []"
| "comprehension f (x # xs) =
     (case f x of
        Inl e \<Rightarrow> Inl e
      | Inr y \<Rightarrow> (case comprehension f xs of Inl e \<Rightarrow> Inl e | Inr ys \<Rightarrow> Inr (y # ys)))"


section \<open>Answer extraction\<close>

definition HASH :: pystr where
  "HASH = ustr ''####''"

definition ANSWER_OPEN :: pystr where
  "ANSWER_OPEN = ustr ''<answer>''"

definition ANSWER_CLOSE :: pystr where
  "ANSWER_CLOSE = ustr ''</answer>''"

text \<open>
  \<open>extract_hash_answer\<close> (nested in \<open>preprocess_dataset\<close>):
  \<open>text.split("####")[1].strip()\<close>, and \<open>None\<close> on IndexError.
\<close>

definition extract_hash_answer :: "pystr \<Rightarrow> pystr option" where
  "extract_hash_answer text =
     (case list_getitem (str_split text HASH) 1 of
        Some piece \<Rightarrow> Some (strip piece)
      | None \<Rightarrow> None)"

text \<open>
  The \<open>try\<close> block of \<open>extract_xml_answer\<close>:
  \<open>text.split("<answer>")[-1].split("</answer>")[0].strip()\<close>; \<open>None\<close> is the
  IndexError of either indexing.
\<close>

definition extract_xml_answer_try :: "pystr \<Rightarrow> pystr option" where
  "extract_xml_answer_try text =
     (case list_getitem (str_split text ANSWER_OPEN) (- 1) of
        None \<Rightarrow> None
      | Some after_open \<Rightarrow>
          (case list_getitem (str_split after_open ANSWER_CLOSE) 0 of
             None \<Rightarrow> None
           | Some body \<Rightarrow> Some (strip body)))"

text \<open>\<open>extract_xml_answer\<close>: the \<open>try\<close> block, with \<open>""\<close> from the handler.\<close>

definition extract_xml_answer :: "pystr \<Rightarrow> pystr" where
  "extract_xml_answer text =
     (case extract_xml_answer_try text of
        Some answer \<Rightarrow> answer
      | None \<Rightarrow> [])"


section \<open>The regular expression of format_reward_func\<close>

text \<open>
  The fragment of Python's \<open>re\<close> syntax that the pattern uses, with no flags set:
  literal text, \<open>.\<close> (any character but a newline), concatenation, \<open>*\<close>, the negative
  lookahead \<open>(?!...)\<close>, \<open>^\<close> (start of the string) and \<open>$\<close> (end of the string, or
  just before a newline that ends the string).
\<close>

datatype regex =
    Lit pystr
  | AnyChar
  | Seq regex regex
  | Star regex
  | NegLookahead regex
  | Bol
  | Eol

text \<open>
  \<open>star_ends step n i\<close>: the positions reached from \<open>i\<close> by at most \<open>n\<close> rounds of
  \<open>step\<close>, each of which consumes at least one character (the engine does not repeat
  an empty match).
\<close>

fun star_ends :: "(nat \<Rightarrow> nat list) \<Rightarrow> nat \<Rightarrow> nat \<Rightarrow> nat list" where
  "star_ends step 0 i = [i]"
| "star_ends step (Suc n) i =
     i # concat (map (star_ends step n) (filter (\<lambda>j. i < j) (step i)))"

text \<open>
  \<open>ends r t i\<close>: every position at which a match of \<open>r\<close> that starts at position
  \<open>i\<close> of the text \<open>t\<close> can end.  A starred expression needs at most
  \<open>length t - i\<close> rounds from \<open>i\<close>.
\<close>

primrec ends :: "regex \<Rightarrow> pystr \<Rightarrow> nat \<Rightarrow> nat list" where
  "ends (Lit s) t i = (if prefix s (drop i t) then [i + length s] else [])"
| "ends AnyChar t i = (if i < length t \<and> t ! i \<noteq> 10 then [i + 1] else [])"
| "ends (Seq a b) t i = concat (map (ends b t) (ends a t i))"
| "ends (Star r) t i = star_ends (ends r t) (length t - i) i"
| "ends (NegLookahead r) t i = (if ends r t i = [] then [i] else [])"
| "ends Bol t i = (if i = 0 then [i] else [])"
| "ends Eol t i =
     (if i = length t \<or> (i + 1 = length t \<and> t ! i = 10) then [i] else [])"

text \<open>\<open>bool(re.match(pattern, s))\<close>: some match starts at position 0.\<close>

definition re_match :: "regex \<Rightarrow> pystr \<Rightarrow> bool" where
  "re_match r s \<longleftrightarrow> ends r s 0 \<noteq> []"

definition REASONING_OPEN :: pystr where
  "REASONING_OPEN = ustr ''<reasoning>''"

definition REASONING_CLOSE :: pystr where
  "REASONING_CLOSE = ustr ''</reasoning>''"

definition NEWLINE :: pystr where
  "NEWLINE = [10]"

text \<open>\<open>(?:(?!close).)*\<close>\<close>

definition body_until :: "pystr \<Rightarrow> regex" where
  "body_until close = Star (Seq (NegLookahead (Lit close)) AnyChar)"

text \<open>
  \<open>^<reasoning>(?:(?!</reasoning>).)*</reasoning>\n<answer>(?:(?!</answer>).)*</answer>$\<close>
\<close>

definition pattern :: regex where
  "pattern =
     Seq Bol (Seq (Lit REASONING_OPEN) (Seq (body_until REASONING_CLOSE)
       (Seq (Lit REASONING_CLOSE) (Seq (Lit NEWLINE) (Seq (Lit ANSWER_OPEN)
         (Seq (body_until ANSWER_CLOSE) (Seq (Lit ANSWER_CLOSE) Eol)))))))"


section \<open>Reward functions\<close>

text \<open>\<open>completion[0]["content"]\<close>\<close>

definition first_content :: "conversation \<Rightarrow> py_error + pystr" where
  "first_content completion =
     (case list_getitem completion 0 of
        None \<Rightarrow> Inl IndexError
      | Some m \<Rightarrow> (case m ''content'' of None \<Rightarrow> Inl KeyError | Some c \<Rightarrow> Inr c))"

text \<open>
  \<open>format_reward_func(completions, **kwargs)\<close>; the keyword arguments are taken and
  never read.
\<close>

definition format_reward_func :: "conversation list \<Rightarrow> 'k \<Rightarrow> py_error + real list" where
  "format_reward_func completions kwargs =
     (case comprehension first_content completions of
        Inl e \<Rightarrow> Inl e
      | Inr responses \<Rightarrow>
          (let matches = map (re_match pattern) responses
           in Inr (map (\<lambda>m. if m then 1 else 0) matches)))"

text \<open>\<open>str(a)\<close> for an entry of the answer column, which is a string or \<open>None\<close>.\<close>

definition str_of_answer :: "pystr option \<Rightarrow> pystr" where
  "str_of_answer a = (case a of None \<Rightarrow> ustr ''None'' | Some s \<Rightarrow> s)"

text \<open>\<open>'Y' if r == a else 'N'\<close> and \<open>2.0 if r == a else 0.0\<close> over the zipped lists.\<close>

definition marks :: "pystr list \<Rightarrow> pystr option list \<Rightarrow> pystr" where
  "marks extracted answer = map (\<lambda>(r, a). if Some r = a then 89 else 78) (zip extracted answer)"

definition scores :: "pystr list \<Rightarrow> pystr option list \<Rightarrow> real list" where
  "scores extracted answer = map (\<lambda>(r, a). if Some r = a then 2 else 0) (zip extracted answer)"

text \<open>
  The text that \<open>correctness_reward_func\<close> prints, its subscripts evaluated in the order
  of the f-string.
\<close>

definition report ::
  "conversation list \<Rightarrow> conversation list \<Rightarrow> pystr option list \<Rightarrow> pystr list \<Rightarrow> pystr list
     \<Rightarrow> py_error + pystr" where
  "report prompts completions answer responses extracted_responses =
     (case list_getitem prompts 0 of None \<Rightarrow> Inl IndexError | Some prompt \<Rightarrow>
      case list_getitem prompt (- 1) of None \<Rightarrow> Inl IndexError | Some m \<Rightarrow>
      case m ''content'' of None \<Rightarrow> Inl KeyError | Some question \<Rightarrow>
      case list_getitem answer 0 of None \<Rightarrow> Inl IndexError | Some a0 \<Rightarrow>
      case list_getitem responses 0 of None \<Rightarrow> Inl IndexError | Some r0 \<Rightarrow>
      case list_getitem extracted_responses 0 of None \<Rightarrow> Inl IndexError | Some e0 \<Rightarrow>
        Inr (ustr ''\<newline>\<newline>===============================================================\<newline>''
           @ ustr ''User Question:\<newline>'' @ question
           @ ustr ''\<newline>\<newline>Correct Answer:\<newline>'' @ str_of_answer a0 @ ustr ''\<newline>''
           @ ustr ''\<newline>---------------------------------------------------------------\<newline>''
           @ ustr ''\<newline>\<newline>1st/'' @ str_of_nat (length completions)
           @ ustr '' generated responses:\<newline>'' @ r0
           @ ustr ''\<newline>\<newline>Extracted: '' @ e0
           @ ustr ''\<newline>\<newline>Correctness of all '' @ str_of_nat (length completions)
           @ ustr '' responses: '' @ marks extracted_responses answer))"

text \<open>
  \<open>print(text)\<close> on \<open>sys.stdout\<close>, whose contents are passed in and returned: the text
  is written, then the newline.  A write raises UnicodeEncodeError, and writes nothing,
  when the encoding of the stream cannot represent a character of what it is given;
  \<open>encodable\<close> says which characters the encoding represents.  The stream is
  taken to be open for writing.
\<close>

definition stdout_write :: "(nat \<Rightarrow> bool) \<Rightarrow> pystr \<Rightarrow> pystr \<Rightarrow> (py_error + unit) \<times> pystr" where
  "stdout_write encodable s out =
     (if list_all encodable s then (Inr (), out @ s) else (Inl UnicodeEncodeError, out))"

definition print_text :: "(nat \<Rightarrow> bool) \<Rightarrow> pystr \<Rightarrow> pystr \<Rightarrow> (py_error + unit) \<times> pystr" where
  "print_text encodable text out =
     (case stdout_write encodable text out of
        (Inl e, out1) \<Rightarrow> (Inl e, out1)
      | (Inr u, out1) \<Rightarrow> stdout_write encodable [10] out1)"

text \<open>
  \<open>correctness_reward_func(prompts, completions, answer, **kwargs)\<close>, given the
  characters the encoding of \<open>sys.stdout\<close> represents and what the stream holds.
\<close>

definition correctness_reward_func ::
  "(nat \<Rightarrow> bool) \<Rightarrow> conversation list \<Rightarrow> conversation list \<Rightarrow> pystr option list \<Rightarrow> 'k
     \<Rightarrow> pystr \<Rightarrow> (py_error + real list) \<times> pystr" where
  "correctness_reward_func encodable prompts completions answer kwargs out =
     (case comprehension first_content completions of
        Inl e \<Rightarrow> (Inl e, out)
      | Inr responses \<Rightarrow>
          (let extracted_responses = map extract_xml_answer responses
           in case report prompts completions answer responses extracted_responses of
                Inl e \<Rightarrow> (Inl e, out)
              | Inr text \<Rightarrow>
                  (case print_text encodable text out of
                     (Inl e, out1) \<Rightarrow> (Inl e, out1)
                   | (Inr u, out1) \<Rightarrow> (Inr (scores extracted_responses answer), out1))))"


section \<open>Timing instrumentation\<close>

text \<open>
  The fields of a \<open>TimingCallback\<close>, the lines it prints (ASCII text, with the measured
  duration as computed, the rounding of \<open>:.2f\<close> left out), and the state the methods run in: the
  callback, the readings \<open>time.time()\<close> returns one after the other, what has been
  printed, and everything else the trainer can reach.
\<close>

record timing_callback =
  generation_start_time :: "real option"
  backprop_start_time :: "real option"
  step_count :: int

datatype line =
    StartingGeneration int
  | BackpropCompleted int real
  | GenerationCompleted real
  | StartingBackprop
  | LossComputation real
  | TrainingStep real

record 'x world =
  callback :: timing_callback
  clock :: "nat \<Rightarrow> real"
  reads :: nat
  printed :: "line list"
  other :: 'x

definition time_time :: "'x world \<Rightarrow> real \<times> 'x world" where
  "time_time w = (clock w (reads w), w\<lparr>reads := reads w + 1\<rparr>)"

definition print :: "line \<Rightarrow> 'x world \<Rightarrow> 'x world" where
  "print l w = w\<lparr>printed := printed w @ [l]\<rparr>"

text \<open>\<open>TimingCallback.__init__\<close>\<close>

definition init_callback :: timing_callback where
  "init_callback =
     \<lparr>generation_start_time = None, backprop_start_time = None, step_count = 0\<rparr>"

text \<open>
  \<open>on_step_begin\<close> and \<open>on_step_end\<close>, given \<open>args.gradient_accumulation_steps\<close> and
  \<open>state.global_step\<close>; \<open>%\<close> by zero raises.
\<close>

definition on_step_begin :: "int \<Rightarrow> int \<Rightarrow> 'x world \<Rightarrow> (py_error + unit) \<times> 'x world" where
  "on_step_begin gradient_accumulation_steps global_step w =
     (if gradient_accumulation_steps = 0 then (Inl ZeroDivisionError, w)
      else if global_step mod gradient_accumulation_steps = 0
      then (let (t, w1) = time_time w;
                w2 = w1\<lparr>callback := (callback w1)\<lparr>generation_start_time := Some t\<rparr>\<rparr>
            in (Inr (), print (StartingGeneration global_step) w2))
      else (Inr (), w))"

definition on_step_end :: "int \<Rightarrow> int \<Rightarrow> 'x world \<Rightarrow> (py_error + unit) \<times> 'x world" where
  "on_step_end gradient_accumulation_steps global_step w =
     (if gradient_accumulation_steps = 0 then (Inl ZeroDivisionError, w)
      else if global_step mod gradient_accumulation_steps = 0
      then (let w3 = (case backprop_start_time (callback w) of
                        None \<Rightarrow> w
                      | Some t0 \<Rightarrow>
                          (let (t, w1) = time_time w
                           in print (BackpropCompleted global_step (t - t0)) w1))
            in (Inr (), w3\<lparr>callback := (callback w3)\<lparr>step_count := step_count (callback w3) + 1\<rparr>\<rparr>))
      else (Inr (), w))"

text \<open>
  A method of the trainer: from its arguments and the state to the value it returns,
  or the exception it raises, and the state it leaves.
\<close>

type_synonym ('a, 'e, 'r, 'x) py_method = "'a \<Rightarrow> 'x world \<Rightarrow> ('e + 'r) \<times> 'x world"

definition wrapped_generate_and_score ::
  "('a, 'e, 'r, 'x) py_method \<Rightarrow> ('a, 'e, 'r, 'x) py_method" where
  "wrapped_generate_and_score original_generate args w =
     (case original_generate args w of
        (Inl e, w1) \<Rightarrow> (Inl e, w1)
      | (Inr result, w1) \<Rightarrow>
          (case generation_start_time (callback w1) of
             None \<Rightarrow> (Inr result, w1)
           | Some t0 \<Rightarrow>
               (let (t1, w2) = time_time w1;
                    w3 = print (GenerationCompleted (t1 - t0)) w2;
                    (t2, w4) = time_time w3;
                    w5 = w4\<lparr>callback := (callback w4)\<lparr>backprop_start_time := Some t2\<rparr>\<rparr>;
                    w6 = print StartingBackprop w5;
                    w7 = w6\<lparr>callback := (callback w6)\<lparr>generation_start_time := None\<rparr>\<rparr>
                in (Inr result, w7))))"

definition wrapped_compute_loss ::
  "('a, 'e, 'r, 'x) py_method \<Rightarrow> ('a, 'e, 'r, 'x) py_method" where
  "wrapped_compute_loss original_compute_loss args w =
     (let (start_time, w1) = time_time w
      in case original_compute_loss args w1 of
           (Inl e, w2) \<Rightarrow> (Inl e, w2)
         | (Inr result, w2) \<Rightarrow>
             (let (t, w3) = time_time w2
              in (Inr result, print (LossComputation (t - start_time)) w3)))"

definition patched_training_step ::
  "('a, 'e, 'r, 'x) py_method \<Rightarrow> ('a, 'e, 'r, 'x) py_method" where
  "patched_training_step original_training_step args w =
     (let (step_start_time, w1) = time_time w
      in case original_training_step args w1 of
           (Inl e, w2) \<Rightarrow> (Inl e, w2)
         | (Inr loss, w2) \<Rightarrow>
             (let (t, w3) = time_time w2
              in (Inr loss, print (TrainingStep (t - step_start_time)) w3)))"

text \<open>The three methods of the trainer that the script replaces.\<close>

record ('a, 'b, 'c, 'e, 'r, 's, 't, 'x) trainer =
  generate_and_score_completions :: "('a, 'e, 'r, 'x) py_method"
  compute_loss :: "('b, 'e, 's, 'x) py_method"
  training_step :: "('c, 'e, 't, 'x) py_method"

definition patch_trainer ::
  "('a, 'b, 'c, 'e, 'r, 's, 't, 'x) trainer \<Rightarrow> ('a, 'b, 'c, 'e, 'r, 's, 't, 'x) trainer" where
  "patch_trainer trainer =
     trainer\<lparr>generate_and_score_completions :=
                wrapped_generate_and_score (generate_and_score_completions trainer),
             compute_loss := wrapped_compute_loss (compute_loss trainer)\<rparr>"

text \<open>The trainer as \<open>main\<close> leaves it before \<open>trainer.train()\<close>.\<close>

definition main_patch ::
  "('a, 'b, 'c, 'e, 'r, 's, 't, 'x) trainer \<Rightarrow> ('a, 'b, 'c, 'e, 'r, 's, 't, 'x) trainer" where
  "main_patch trainer0 =
     (let trainer = patch_trainer trainer0
      in trainer\<lparr>training_step := patched_training_step (training_step trainer)\<rparr>)"


section \<open>Notions used in the statements\<close>

text \<open>A body that stays on one line and does not contain its closing tag.\<close>

definition one_line_without :: "pystr \<Rightarrow> pystr \<Rightarrow> bool" where
  "one_line_without close body \<longleftrightarrow> \<not> sublist close body \<and> 10 \<notin> set body"

text \<open>
  The format as the specification words it: the whole text is \<open><reasoning>\<close>, a
  reasoning text without \<open></reasoning>\<close>, \<open></reasoning>\<close>, one newline, \<open><answer>\<close>, an
  answer text without \<open></answer>\<close>, and \<open></answer>\<close>.
\<close>

definition format_as_specified :: "pystr \<Rightarrow> bool" where
  "format_as_specified s \<longleftrightarrow>
     (\<exists>r a. s = REASONING_OPEN @ r @ REASONING_CLOSE @ NEWLINE @ ANSWER_OPEN @ a @ ANSWER_CLOSE \<and>
        \<not> sublist REASONING_CLOSE r \<and> \<not> sublist ANSWER_CLOSE a)"

text \<open>
  The format with both texts on one line each, and with an optional newline as the very
  last character.
\<close>

definition format_as_matched :: "pystr \<Rightarrow> bool" where
  "format_as_matched s \<longleftrightarrow>
     (\<exists>r a e. s = REASONING_OPEN @ r @ REASONING_CLOSE @ NEWLINE @ ANSWER_OPEN @ a @ ANSWER_CLOSE @ e \<and>
        (e = [] \<or> e = NEWLINE) \<and>
        one_line_without REASONING_CLOSE r \<and> one_line_without ANSWER_CLOSE a)"

text \<open>The condition under which one round of \<open>(?:(?!close).)\<close> succeeds at position \<open>k\<close>.\<close>

definition body_ok :: "pystr \<Rightarrow> pystr \<Rightarrow> nat \<Rightarrow> bool" where
  "body_ok close t k \<longleftrightarrow> \<not> prefix close (drop k t) \<and> k < length t \<and> t ! k \<noteq> 10"

text \<open>A completion whose first message exists and has a \<open>content\<close> entry.\<close>

definition has_content :: "conversation \<Rightarrow> bool" where
  "has_content completion = (case first_content completion of Inl e \<Rightarrow> False | Inr c \<Rightarrow> True)"

text \<open>
  The prompts, completions and answers on which the subscripts of the printed report
  all succeed.
\<close>

definition printable :: "conversation list \<Rightarrow> conversation list \<Rightarrow> pystr option list \<Rightarrow> bool" where
  "printable prompts completions answer \<longleftrightarrow>
     (case prompts of
        [] \<Rightarrow> False
      | prompt # _ \<Rightarrow> prompt \<noteq> [] \<and> (last prompt) ''content'' \<noteq> None) \<and>
     answer \<noteq> [] \<and> completions \<noteq> []"

text \<open>
  The report \<open>correctness_reward_func\<close> comes to print, as a function of its arguments,
  and the condition that the stream can take it and the newline.
\<close>

definition report_of ::
  "conversation list \<Rightarrow> conversation list \<Rightarrow> pystr option list \<Rightarrow> py_error + pystr" where
  "report_of prompts completions answer =
     (case comprehension first_content completions of
        Inl e \<Rightarrow> Inl e
      | Inr responses \<Rightarrow>
          report prompts completions answer responses (map extract_xml_answer responses))"

definition encodable_report ::
  "(nat \<Rightarrow> bool) \<Rightarrow> conversation list \<Rightarrow> conversation list \<Rightarrow> pystr option list \<Rightarrow> bool" where
  "encodable_report encodable prompts completions answer =
     (case report_of prompts completions answer of
        Inl e \<Rightarrow> False
      | Inr text \<Rightarrow> list_all encodable text \<and> encodable 10)"

text \<open>What UTF-8 represents: every code point but the surrogates.\<close>

definition utf8 :: "nat \<Rightarrow> bool" where
  "utf8 c \<longleftrightarrow> c < 55296 \<or> (57343 < c \<and> c < 1114112)"

text \<open>The characters of ASCII, which UTF-8 represents among others.\<close>

definition ascii :: "nat \<Rightarrow> bool" where
  "ascii c \<longleftrightarrow> c < 128"

text \<open>
  Numeric correctness as the specification words it: the integer a text denotes, read
  as \<open>int\<close> reads an optional minus sign and decimal digits, and two texts denoting the
  same integer.
\<close>

fun digits_value :: "nat \<Rightarrow> pystr \<Rightarrow> nat option" where
  "digits_value n [] = Some n"
| "digits_value n (c # cs) =
     (if 48 \<le> c \<and> c \<le> 57 then digits_value (10 * n + (c - 48)) cs else None)"

definition int_value :: "pystr \<Rightarrow> int option" where
  "int_value s =
     (case s of
        [] \<Rightarrow> None
      | c # cs \<Rightarrow>
          (if c = 45
           then (if cs = [] then None else map_option (\<lambda>n. - int n) (digits_value 0 cs))
           else map_option int (digits_value 0 s)))"

definition numerically_equal :: "pystr \<Rightarrow> pystr option \<Rightarrow> bool" where
  "numerically_equal r a =
     (case a of
        None \<Rightarrow> False
      | Some t \<Rightarrow>
          (case int_value r of
             None \<Rightarrow> False
           | Some m \<Rightarrow> (case int_value t of None \<Rightarrow> False | Some n \<Rightarrow> m = n)))"

text \<open>A message with the given content, as the trainer passes it.\<close>

definition assistant :: "pystr \<Rightarrow> message" where
  "assistant c = [''role'' \<mapsto> ustr ''assistant'', ''content'' \<mapsto> c]"


section \<open>A small run used as an example\<close>

text \<open>
  A state whose clock reads 0, 2, 4, ..., a method that returns its argument plus one and
  leaves the state alone, a method that raises, and the states after \<open>on_step_begin\<close> at step 8 of 4 and
  after the wrapped generation that follows.
\<close>

definition example_world :: "unit world" where
  "example_world =
     \<lparr>callback = init_callback, clock = (\<lambda>n. 2 * real n), reads = 0, printed = [], other = ()\<rparr>"

definition example_method :: "(nat, unit, nat, unit) py_method" where
  "example_method args w = (Inr (args + 1), w)"

definition failing_method :: "(nat, unit, nat, unit) py_method" where
  "failing_method args w = (Inl (), w)"

definition example_trainer :: "(nat, nat, nat, unit, nat, nat, nat, unit) trainer" where
  "example_trainer =
     \<lparr>generate_and_score_completions = example_method,
      compute_loss = example_method,
      training_step = example_method\<rparr>"

definition after_step_begin :: "unit world" where
  "after_step_begin =
     \<lparr>callback = \<lparr>generation_start_time = Some 0, backprop_start_time = None, step_count = 0\<rparr>,
      clock = (\<lambda>n. 2 * real n), reads = 1, printed = [StartingGeneration 8], other = ()\<rparr>"

definition after_generation :: "unit world" where
  "after_generation =
     \<lparr>callback = \<lparr>generation_start_time = None, backprop_start_time = Some 4, step_count = 0\<rparr>,
      clock = (\<lambda>n. 2 * real n), reads = 3,
      printed = [StartingGeneration 8, GenerationCompleted 2, StartingBackprop], other = ()\<rparr>"


section \<open>Facts about splitting and indexing\<close>

text \<open>
  \<open>strip\<close> removes a run of whitespace at each end and leaves a text that neither starts
  nor ends with whitespace.
\<close>

lemma strip_spec:
  "\<exists>l r. s = l @ strip s @ r \<and> list_all py_isspace l \<and> list_all py_isspace r \<and>
         (strip s = [] \<or> (\<not> py_isspace (hd (strip s)) \<and> \<not> py_isspace (last (strip s))))"
proof -
  define l where "l = takeWhile py_isspace s"
  define d where "d = dropWhile py_isspace s"
  define r where "r = rev (takeWhile py_isspace (rev d))"
  have s: "s = l @ d" by (simp add: l_def d_def)
  have st: "strip s = rev (dropWhile py_isspace (rev d))" by (simp add: strip_def d_def)
  have "rev (dropWhile py_isspace (rev d)) @ rev (takeWhile py_isspace (rev d)) = d"
    by (metis rev_append rev_rev_ident takeWhile_dropWhile_id)
  then have d: "d = strip s @ r" by (simp add: st r_def)
  have wl: "list_all py_isspace l" unfolding l_def list_all_iff by (auto dest: set_takeWhileD)
  have wr: "list_all py_isspace r" unfolding r_def list_all_iff by (auto dest: set_takeWhileD)
  have ends: "\<not> py_isspace (hd (strip s)) \<and> \<not> py_isspace (last (strip s))" if ne: "strip s \<noteq> []"
  proof
    have "d \<noteq> []" using d ne by auto
    then have "\<not> py_isspace (hd d)" unfolding d_def by (rule hd_dropWhile)
    moreover have "hd d = hd (strip s)" using d ne by (metis hd_append2)
    ultimately show "\<not> py_isspace (hd (strip s))" by simp
    have "dropWhile py_isspace (rev d) \<noteq> []" using ne st by simp
    then have "\<not> py_isspace (hd (dropWhile py_isspace (rev d)))" by (rule hd_dropWhile)
    then show "\<not> py_isspace (last (strip s))" using ne st by (simp add: last_rev)
  qed
  show ?thesis using s d wl wr ends by (intro exI[of _ l] exI[of _ r]) auto
qed

lemma split_from_nonempty: "split_from sep acc s \<noteq> []"
  by (induction sep acc s rule: split_from.induct) auto

lemma split_from_no_occ:
  "\<not> sublist sep s \<Longrightarrow> split_from sep acc s = [rev acc @ s]"
proof (induction s arbitrary: acc)
  case Nil
  then show ?case by simp
next
  case (Cons c cs)
  from Cons.prems have np: "\<not> prefix sep (c # cs)" and ns: "\<not> sublist sep cs"
    by (auto simp: sublist_Cons_right)
  show ?case using np Cons.IH[OF ns, of "c # acc"] by simp
qed

lemma prefix_overlap:
  assumes "prefix sep (p @ sep @ r)" "p \<noteq> []"
  shows "prefix sep (p @ butlast sep)"
proof (cases "sep = []")
  case True then show ?thesis by simp
next
  case False
  then have eq: "p @ sep @ r = (p @ butlast sep) @ (last sep # r)"
    by (metis append.assoc append_Cons append_Nil append_butlast_last_id)
  have len: "length sep \<le> length (p @ butlast sep)"
    using assms(2) False by (cases p) auto
  from assms(1) show ?thesis unfolding eq
    using len by (metis prefix_length_prefix prefixI)
qed

lemma split_from_first_occ:
  assumes "sep \<noteq> []" "\<not> sublist sep (p @ butlast sep)"
  shows "split_from sep acc (p @ sep @ r) = (rev acc @ p) # split_from sep [] r"
  using assms(2)
proof (induction p arbitrary: acc)
  case Nil
  obtain c cs where sep: "sep = c # cs" using assms(1) by (cases sep) auto
  show ?case by (simp add: sep)
next
  case (Cons c p)
  have np: "\<not> prefix sep ((c # p) @ sep @ r)"
    using prefix_overlap[of sep "c # p" r] Cons.prems by auto
  have ns: "\<not> sublist sep (p @ butlast sep)"
    using Cons.prems by (auto simp: sublist_Cons_right)
  show ?case using np Cons.IH[OF ns, of "c # acc"] by simp
qed

text \<open>A separator whose first character occurs nowhere else in it cannot overlap itself.\<close>

lemma tag_no_overlap:
  assumes "prefix sep (p @ sep @ r)" "p \<noteq> []" "hd sep \<notin> set (tl sep)"
  shows "length sep \<le> length p"
proof (rule ccontr)
  assume "\<not> length sep \<le> length p"
  then have lt: "length p < length sep" by simp
  then obtain c cs where sep: "sep = c # cs" by (cases sep) auto
  from assms(1) obtain z where z: "p @ sep @ r = sep @ z" by (auto simp: prefix_def)
  have "(p @ sep @ r) ! length p = c" by (simp add: sep nth_append)
  moreover have "(sep @ z) ! length p = sep ! length p" using lt by (simp add: nth_append)
  ultimately have "sep ! length p = c" using z by simp
  moreover have "0 < length p" using assms(2) by simp
  ultimately have "cs ! (length p - 1) = c" by (simp add: sep nth_Cons')
  moreover have "length p - 1 < length cs" using lt assms(2) by (cases p) (auto simp: sep)
  ultimately have "c \<in> set cs" using nth_mem by metis
  then show False using assms(3) by (simp add: sep)
qed

lemma tag_no_straddle:
  assumes "hd sep \<notin> set (tl sep)" "b \<noteq> []" "hd b = hd sep"
  shows "sublist sep (a @ b) \<longleftrightarrow> sublist sep a \<or> sublist sep b"
proof
  assume "sublist sep (a @ b)"
  then consider "sublist sep a" | "sublist sep b"
    | x1 x2 where "sep = x1 @ x2" "suffix x1 a" "prefix x2 b"
    by (auto simp: sublist_append)
  then show "sublist sep a \<or> sublist sep b"
  proof cases
    case 3
    show ?thesis
    proof (cases "x1 = [] \<or> x2 = []")
      case True
      then show ?thesis using 3 by auto
    next
      case False
      then have "hd x2 = hd b" using 3(3) by (cases x2; cases b) auto
      moreover have "hd x2 \<in> set (tl sep)" using False 3(1) by (cases x1; cases x2) auto
      ultimately show ?thesis using assms by simp
    qed
  qed auto
next
  assume "sublist sep a \<or> sublist sep b"
  then show "sublist sep (a @ b)" by (auto simp: sublist_append)
qed

lemma not_sublist_butlast: "sep \<noteq> [] \<Longrightarrow> \<not> sublist sep (butlast sep)"
  using sublist_length_le[of sep "butlast sep"] by (cases sep) auto

lemma tag_first_occ:
  assumes "hd sep \<notin> set (tl sep)" "sep \<noteq> []" "\<not> sublist sep a"
  shows "\<not> sublist sep (a @ butlast sep)"
proof (cases "butlast sep = []")
  case True
  then show ?thesis using assms by simp
next
  case False
  then have "hd (butlast sep) = hd sep" by (cases sep) (auto split: if_splits)
  from tag_no_straddle[OF assms(1) False this, of a] assms(3) not_sublist_butlast[OF assms(2)]
  show ?thesis by simp
qed

lemma split_from_last:
  assumes "hd sep \<notin> set (tl sep)" "sep \<noteq> []" "\<not> sublist sep r"
  shows "last (split_from sep acc (p @ sep @ r)) = r"
proof (induction p arbitrary: acc rule: length_induct)
  case (1 p)
  show ?case
  proof (cases p)
    case Nil
    have "split_from sep acc (p @ sep @ r) = (rev acc @ []) # split_from sep [] r"
      unfolding Nil using split_from_first_occ[OF assms(2), of "[]" acc r]
        not_sublist_butlast[OF assms(2)] by simp
    then show ?thesis using split_from_no_occ[OF assms(3), of "[]"] by simp
  next
    case (Cons c q)
    show ?thesis
    proof (cases "prefix sep (p @ sep @ r)")
      case True
      have le: "length sep \<le> length p"
        using tag_no_overlap[OF True _ assms(1)] Cons by simp
      then have dr: "drop (length sep - 1) (q @ sep @ r) = drop (length sep - 1) q @ sep @ r"
        using Cons by simp
      have "length (drop (length sep - 1) q) < length p" using Cons by simp
      with 1 have ih: "last (split_from sep [] (drop (length sep - 1) q @ sep @ r)) = r"
        by blast
      have "split_from sep acc (p @ sep @ r)
              = rev acc # split_from sep [] (drop (length sep - 1) q @ sep @ r)"
        using True assms(2) dr unfolding Cons by simp
      then show ?thesis using ih split_from_nonempty by simp
    next
      case False
      have "length q < length p" using Cons by simp
      with 1 have "last (split_from sep (c # acc) (q @ sep @ r)) = r" by blast
      then show ?thesis using False unfolding Cons by simp
    qed
  qed
qed

lemma str_split_nonempty: "str_split s sep \<noteq> []"
  by (simp add: str_split_def split_from_nonempty)

lemma str_split_no_occ: "\<not> sublist sep s \<Longrightarrow> str_split s sep = [s]"
  by (simp add: str_split_def split_from_no_occ)

lemma str_split_first_occ:
  "sep \<noteq> [] \<Longrightarrow> \<not> sublist sep (p @ butlast sep) \<Longrightarrow>
     str_split (p @ sep @ r) sep = p # str_split r sep"
  by (simp add: str_split_def split_from_first_occ)

lemma list_getitem_0: "list_getitem (x # xs) 0 = Some x"
  by (simp add: list_getitem_def)

lemma list_getitem_last: "xs \<noteq> [] \<Longrightarrow> list_getitem xs (- 1) = Some (last xs)"
  by (cases xs rule: rev_cases) (auto simp: list_getitem_def nth_append)

lemma ANSWER_OPEN_tag: "hd ANSWER_OPEN \<notin> set (tl ANSWER_OPEN)" "ANSWER_OPEN \<noteq> []"
  by (simp_all add: ANSWER_OPEN_def ustr_def)

lemma ANSWER_CLOSE_tag: "hd ANSWER_CLOSE \<notin> set (tl ANSWER_CLOSE)" "ANSWER_CLOSE \<noteq> []"
  by (simp_all add: ANSWER_CLOSE_def ustr_def)

lemma open_in_close_suffix:
  "sublist ANSWER_OPEN (ANSWER_CLOSE @ s) \<longleftrightarrow> sublist ANSWER_OPEN s"
  by (simp add: ANSWER_OPEN_def ANSWER_CLOSE_def ustr_def sublist_Cons_right)

lemma extract_xml_answer_try_eq:
  "extract_xml_answer_try text =
     Some (strip (hd (str_split (last (str_split text ANSWER_OPEN)) ANSWER_CLOSE)))"
proof -
  obtain x xs where "str_split (last (str_split text ANSWER_OPEN)) ANSWER_CLOSE = x # xs"
    using str_split_nonempty by (cases "str_split (last (str_split text ANSWER_OPEN)) ANSWER_CLOSE") auto
  then show ?thesis
    by (simp add: extract_xml_answer_try_def list_getitem_last[OF str_split_nonempty]
        list_getitem_0)
qed

lemma first_occ_exists:
  "sublist sep s \<Longrightarrow> sep \<noteq> [] \<Longrightarrow> \<exists>p r. s = p @ sep @ r \<and> \<not> sublist sep (p @ butlast sep)"
proof (induction s)
  case Nil
  then show ?case by simp
next
  case (Cons c cs)
  show ?case
  proof (cases "prefix sep (c # cs)")
    case True
    then obtain r where "c # cs = [] @ sep @ r" by (auto simp: prefix_def)
    moreover have "\<not> sublist sep ([] @ butlast sep)"
      using not_sublist_butlast[OF Cons.prems(2)] by simp
    ultimately show ?thesis by blast
  next
    case False
    with Cons.prems have "sublist sep cs" by (auto simp: sublist_Cons_right)
    from Cons.IH[OF this Cons.prems(2)] obtain p r
      where pr: "cs = p @ sep @ r" "\<not> sublist sep (p @ butlast sep)" by blast
    have "\<not> prefix sep ((c # p) @ butlast sep)"
    proof
      assume "prefix sep ((c # p) @ butlast sep)"
      then have "prefix sep (((c # p) @ butlast sep) @ (last sep # r))"
        using prefix_prefix by blast
      moreover have "((c # p) @ butlast sep) @ (last sep # r) = c # cs"
        using pr(1) Cons.prems(2) by simp
      ultimately show False using False by simp
    qed
    then have "\<not> sublist sep ((c # p) @ butlast sep)"
      using pr(2) by (auto simp: sublist_Cons_right)
    moreover have "c # cs = (c # p) @ sep @ r" using pr(1) by simp
    ultimately show ?thesis by blast
  qed
qed

lemma str_split_occ_length:
  assumes "sep \<noteq> []" "sublist sep s"
  shows "2 \<le> length (str_split s sep)"
proof -
  from first_occ_exists[OF assms(2,1)] obtain p r
    where "s = p @ sep @ r" "\<not> sublist sep (p @ butlast sep)" by blast
  then have "str_split s sep = p # str_split r sep"
    using str_split_first_occ[OF assms(1)] by simp
  moreover have "str_split r sep \<noteq> []" by (rule str_split_nonempty)
  ultimately show ?thesis by (cases "str_split r sep") auto
qed

lemma HASH_nonempty: "HASH \<noteq> []" by (simp add: HASH_def ustr_def)

lemma list_getitem_1: "list_getitem (x # y # ys) 1 = Some y"
  by (simp add: list_getitem_def)

lemma list_getitem_1_single: "list_getitem [x] 1 = None"
  by (simp add: list_getitem_def)

lemmas str_eval = ustr_def HASH_def ANSWER_OPEN_def ANSWER_CLOSE_def sublist_code
  strip_def py_isspace_def

section \<open>Properties of answer extraction\<close>

text \<open>
  C5.  \<open>extract_hash_answer\<close> returns \<open>None\<close> exactly when the text does not contain
  \<open>####\<close>.  Otherwise, with the first occurrence of \<open>####\<close> right after \<open>p\<close> (no
  occurrence starts earlier, that is, none lies in \<open>p\<close> followed by \<open>###\<close>), it returns
  the stripped text between that occurrence and the next one in the rest \<open>r\<close>, or the
  whole of \<open>r\<close> stripped when \<open>r\<close> has no \<open>####\<close>.
\<close>

theorem extract_hash_answer_spec:
  "(extract_hash_answer s = None \<longleftrightarrow> \<not> sublist HASH s) \<and>
   (\<forall>p r. s = p @ HASH @ r \<and> \<not> sublist HASH (p @ butlast HASH) \<longrightarrow>
      (\<not> sublist HASH r \<longrightarrow> extract_hash_answer s = Some (strip r)) \<and>
      (\<forall>m t. r = m @ HASH @ t \<and> \<not> sublist HASH (m @ butlast HASH) \<longrightarrow>
         extract_hash_answer s = Some (strip m)))"
proof (intro conjI allI impI)
  show "extract_hash_answer s = None \<longleftrightarrow> \<not> sublist HASH s"
  proof (cases "sublist HASH s")
    case True
    from str_split_occ_length[OF HASH_nonempty True]
    obtain x y ys where "str_split s HASH = x # y # ys"
      by (cases "str_split s HASH"; cases "tl (str_split s HASH)") auto
    then show ?thesis using True by (simp add: extract_hash_answer_def list_getitem_1)
  next
    case False
    then show ?thesis
      by (simp add: extract_hash_answer_def str_split_no_occ list_getitem_1_single)
  qed
next
  fix p r
  assume a: "s = p @ HASH @ r \<and> \<not> sublist HASH (p @ butlast HASH)"
  assume b: "\<not> sublist HASH r"
  show "extract_hash_answer s = Some (strip r)"
    using a b
    by (simp add: extract_hash_answer_def str_split_first_occ[OF HASH_nonempty]
        str_split_no_occ list_getitem_1)
next
  fix p r m t
  assume a: "s = p @ HASH @ r \<and> \<not> sublist HASH (p @ butlast HASH)"
  assume b: "r = m @ HASH @ t \<and> \<not> sublist HASH (m @ butlast HASH)"
  have "str_split s HASH = p # m # str_split t HASH"
    using a b by (simp add: str_split_first_occ[OF HASH_nonempty])
  then show "extract_hash_answer s = Some (strip m)"
    by (simp add: extract_hash_answer_def list_getitem_1)
qed

text \<open>The theorem at three texts: one marker, two markers, none.\<close>

theorem extract_hash_answer_spec_witness:
  "extract_hash_answer (ustr ''6 * 3 = 18 #### 18 '') = Some (ustr ''18'') \<and>
   extract_hash_answer (ustr ''a #### b #### c'') = Some (ustr ''b'') \<and>
   extract_hash_answer (ustr ''no answer ###'') = None"
proof (intro conjI)
  have "\<not> sublist HASH (ustr ''6 * 3 = 18 '' @ butlast HASH)" "\<not> sublist HASH (ustr '' 18 '')"
    by (simp_all add: str_eval)
  moreover have "ustr ''6 * 3 = 18 #### 18 '' = ustr ''6 * 3 = 18 '' @ HASH @ ustr '' 18 ''"
    by (simp add: str_eval)
  ultimately have "extract_hash_answer (ustr ''6 * 3 = 18 #### 18 '') = Some (strip (ustr '' 18 ''))"
    using extract_hash_answer_spec[of "ustr ''6 * 3 = 18 #### 18 ''"] by blast
  then show "extract_hash_answer (ustr ''6 * 3 = 18 #### 18 '') = Some (ustr ''18'')"
    by (simp add: str_eval)
next
  have "\<not> sublist HASH (ustr ''a '' @ butlast HASH)" "\<not> sublist HASH (ustr '' b '' @ butlast HASH)"
    by (simp_all add: str_eval)
  moreover have "ustr ''a #### b #### c'' = ustr ''a '' @ HASH @ ustr '' b #### c''"
    "ustr '' b #### c'' = ustr '' b '' @ HASH @ ustr '' c''"
    by (simp_all add: str_eval)
  ultimately have "extract_hash_answer (ustr ''a #### b #### c'') = Some (strip (ustr '' b ''))"
    using extract_hash_answer_spec[of "ustr ''a #### b #### c''"] by blast
  then show "extract_hash_answer (ustr ''a #### b #### c'') = Some (ustr ''b'')"
    by (simp add: str_eval)
next
  have "\<not> sublist HASH (ustr ''no answer ###'')" by (simp add: str_eval)
  then show "extract_hash_answer (ustr ''no answer ###'') = None"
    using extract_hash_answer_spec[of "ustr ''no answer ###''"] by blast
qed

text \<open>
  C6.  \<open>str.split\<close> never yields an empty list, so the \<open>try\<close> block of
  \<open>extract_xml_answer\<close> always returns and the handler's \<open>""\<close> is never the result of
  an IndexError; a text with neither \<open><answer>\<close> nor \<open></answer>\<close> comes back whole,
  stripped.
\<close>

theorem extract_xml_answer_handler_unreachable:
  "str_split text ANSWER_OPEN \<noteq> [] \<and>
   (\<forall>piece. str_split piece ANSWER_CLOSE \<noteq> []) \<and>
   (\<exists>answer. extract_xml_answer_try text = Some answer \<and> extract_xml_answer text = answer) \<and>
   (\<not> sublist ANSWER_OPEN text \<and> \<not> sublist ANSWER_CLOSE text \<longrightarrow>
      extract_xml_answer text = strip text)"
proof (intro conjI allI impI)
  show "\<exists>answer. extract_xml_answer_try text = Some answer \<and> extract_xml_answer text = answer"
    by (simp add: extract_xml_answer_def extract_xml_answer_try_eq)
next
  assume "\<not> sublist ANSWER_OPEN text \<and> \<not> sublist ANSWER_CLOSE text"
  then show "extract_xml_answer text = strip text"
    by (simp add: extract_xml_answer_def extract_xml_answer_try_eq str_split_no_occ)
qed (rule str_split_nonempty)+

text \<open>The theorem at a text without tags.\<close>

theorem extract_xml_answer_handler_unreachable_witness:
  "extract_xml_answer_try (ustr '' forty-two '') = Some (ustr ''forty-two'') \<and>
   extract_xml_answer (ustr '' forty-two '') = ustr ''forty-two''"
proof -
  have n: "\<not> sublist ANSWER_OPEN (ustr '' forty-two '') \<and> \<not> sublist ANSWER_CLOSE (ustr '' forty-two '')"
    by (simp add: str_eval)
  from extract_xml_answer_handler_unreachable[of "ustr '' forty-two ''"] n
  have "extract_xml_answer (ustr '' forty-two '') = strip (ustr '' forty-two '')"
    and "\<exists>answer. extract_xml_answer_try (ustr '' forty-two '') = Some answer \<and>
           extract_xml_answer (ustr '' forty-two '') = answer"
    by blast+
  then show ?thesis by (auto simp: str_eval)
qed

text \<open>
  C3.  On \<open>pre + "<answer>" + a + "</answer>" + suf\<close>, where \<open>a\<close> contains neither tag
  and no \<open><answer>\<close> occurs in \<open>suf\<close>, \<open>extract_xml_answer\<close> returns \<open>a\<close> stripped.
\<close>

theorem extract_xml_answer_tagged:
  assumes "\<not> sublist ANSWER_OPEN a" "\<not> sublist ANSWER_CLOSE a" "\<not> sublist ANSWER_OPEN suf"
  shows "extract_xml_answer (pre @ ANSWER_OPEN @ a @ ANSWER_CLOSE @ suf) = strip a"
proof -
  have "\<not> sublist ANSWER_OPEN (ANSWER_CLOSE @ suf)"
    using assms(3) by (simp add: open_in_close_suffix)
  moreover have "hd (ANSWER_CLOSE @ suf) = hd ANSWER_OPEN"
    by (simp add: ANSWER_OPEN_def ANSWER_CLOSE_def ustr_def)
  ultimately have no: "\<not> sublist ANSWER_OPEN (a @ ANSWER_CLOSE @ suf)"
    using tag_no_straddle[OF ANSWER_OPEN_tag(1), of "ANSWER_CLOSE @ suf" a] assms(1)
      ANSWER_CLOSE_tag(2) by simp
  have l: "last (str_split (pre @ ANSWER_OPEN @ a @ ANSWER_CLOSE @ suf) ANSWER_OPEN)
             = a @ ANSWER_CLOSE @ suf"
    unfolding str_split_def by (rule split_from_last[OF ANSWER_OPEN_tag no])
  have "str_split (a @ ANSWER_CLOSE @ suf) ANSWER_CLOSE = a # str_split suf ANSWER_CLOSE"
    by (rule str_split_first_occ[OF ANSWER_CLOSE_tag(2) tag_first_occ[OF ANSWER_CLOSE_tag assms(2)]])
  then show ?thesis
    by (simp add: extract_xml_answer_def extract_xml_answer_try_eq l)
qed

text \<open>The theorem at a completion in the expected format.\<close>

theorem extract_xml_answer_tagged_witness:
  "extract_xml_answer (ustr ''<reasoning>2 + 2 = 4</reasoning>\<newline><answer> 4 </answer>\<newline>'') = ustr ''4''"
proof -
  have "\<not> sublist ANSWER_OPEN (ustr '' 4 '')" "\<not> sublist ANSWER_CLOSE (ustr '' 4 '')"
    "\<not> sublist ANSWER_OPEN (ustr ''\<newline>'')"
    by (simp_all add: str_eval)
  from extract_xml_answer_tagged[OF this, of "ustr ''<reasoning>2 + 2 = 4</reasoning>\<newline>''"]
  show ?thesis by (simp add: str_eval)
qed


section \<open>Facts about the regular expression\<close>

text \<open>
  The rounds given to a starred expression are enough: when no round ends beyond \<open>b\<close>,
  \<open>b - i\<close> rounds from \<open>i\<close> reach every position that repeated rounds can reach.
\<close>

lemma star_ends_self: "i \<in> set (star_ends step n i)"
  by (cases n) simp_all

lemma star_ends_sound:
  "j \<in> set (star_ends step n i) \<Longrightarrow> (\<lambda>a c. a < c \<and> c \<in> set (step a))\<^sup>*\<^sup>* i j"
proof (induction n arbitrary: i)
  case 0
  then show ?case by simp
next
  case (Suc n)
  from Suc.prems consider "j = i" | k where "k \<in> set (step i)" "i < k" "j \<in> set (star_ends step n k)"
    by auto
  then show ?case
  proof cases
    case 1
    then show ?thesis by simp
  next
    case 2
    from Suc.IH[OF 2(3)] have "(\<lambda>a c. a < c \<and> c \<in> set (step a))\<^sup>*\<^sup>* k j" .
    then show ?thesis using 2(1,2) by (simp add: converse_rtranclp_into_rtranclp)
  qed
qed

lemma star_ends_complete:
  assumes "(\<lambda>a c. a < c \<and> c \<in> set (step a))\<^sup>*\<^sup>* i j"
    and "\<And>a c. c \<in> set (step a) \<Longrightarrow> c \<le> b"
    and "b - i \<le> n"
  shows "j \<in> set (star_ends step n i)"
  using assms(1,3)
proof (induction arbitrary: n rule: converse_rtranclp_induct)
  case base
  show ?case by (rule star_ends_self)
next
  case (step i k)
  from step.hyps(1) have ik: "i < k" "k \<in> set (step i)" by simp_all
  from assms(2)[OF ik(2)] ik(1) step.prems obtain m where n: "n = Suc m" "b - k \<le> m"
    by (cases n) auto
  from step.IH[OF n(2)] have "j \<in> set (star_ends step m k)" .
  then show ?case using ik by (auto simp: n(1))
qed

lemma star_ends_single:
  assumes "\<And>k. step k = (if P k then [Suc k] else [])"
  shows "set (star_ends step n i) = {j. i \<le> j \<and> j \<le> i + n \<and> (\<forall>k. i \<le> k \<and> k < j \<longrightarrow> P k)}"
proof (induction n arbitrary: i)
  case 0
  show ?case by auto
next
  case (Suc n)
  show ?case
  proof (cases "P i")
    case True
    have "set (star_ends step (Suc n) i) = insert i (set (star_ends step n (Suc i)))"
      using True by (simp add: assms)
    also have "\<dots> = insert i {j. Suc i \<le> j \<and> j \<le> Suc i + n \<and> (\<forall>k. Suc i \<le> k \<and> k < j \<longrightarrow> P k)}"
      by (simp only: Suc.IH)
    also have "\<dots> = {j. i \<le> j \<and> j \<le> i + Suc n \<and> (\<forall>k. i \<le> k \<and> k < j \<longrightarrow> P k)}"
    proof (intro set_eqI iffI)
      fix j
      assume "j \<in> insert i {j. Suc i \<le> j \<and> j \<le> Suc i + n \<and> (\<forall>k. Suc i \<le> k \<and> k < j \<longrightarrow> P k)}"
      then show "j \<in> {j. i \<le> j \<and> j \<le> i + Suc n \<and> (\<forall>k. i \<le> k \<and> k < j \<longrightarrow> P k)}"
      proof (elim insertE)
        assume "j = i" then show ?thesis by auto
      next
        assume a: "j \<in> {j. Suc i \<le> j \<and> j \<le> Suc i + n \<and> (\<forall>k. Suc i \<le> k \<and> k < j \<longrightarrow> P k)}"
        have "P k" if "i \<le> k" "k < j" for k
        proof (cases "k = i")
          case True then show ?thesis using \<open>P i\<close> by simp
        next
          case False
          then have "Suc i \<le> k" using that by simp
          then show ?thesis using a that by blast
        qed
        then show ?thesis using a by auto
      qed
    next
      fix j
      assume "j \<in> {j. i \<le> j \<and> j \<le> i + Suc n \<and> (\<forall>k. i \<le> k \<and> k < j \<longrightarrow> P k)}"
      then show "j \<in> insert i {j. Suc i \<le> j \<and> j \<le> Suc i + n \<and> (\<forall>k. Suc i \<le> k \<and> k < j \<longrightarrow> P k)}"
        by auto
    qed
    finally show ?thesis .
  next
    case False
    have "set (star_ends step (Suc n) i) = {i}"
      using False by (simp add: assms)
    also have "\<dots> = {j. i \<le> j \<and> j \<le> i + Suc n \<and> (\<forall>k. i \<le> k \<and> k < j \<longrightarrow> P k)}"
      using False by (auto simp: le_less)
    finally show ?thesis .
  qed
qed

lemma ends_body_step:
  "ends (Seq (NegLookahead (Lit close)) AnyChar) t k = (if body_ok close t k then [Suc k] else [])"
  by (simp add: body_ok_def)

lemma ends_body_until_iff:
  "j \<in> set (ends (body_until close) t i) \<longleftrightarrow>
     i \<le> j \<and> j \<le> i + (length t - i) \<and> (\<forall>k. i \<le> k \<and> k < j \<longrightarrow> body_ok close t k)"
  unfolding body_until_def ends.simps(4)
  by (subst star_ends_single[where P = "body_ok close t"]) (simp_all only: ends_body_step mem_Collect_eq)

lemma ends_Lit_iff: "j \<in> set (ends (Lit x) t i) \<longleftrightarrow> prefix x (drop i t) \<and> j = i + length x"
  by auto

lemma ends_Seq_iff:
  "k \<in> set (ends (Seq a b) t i) \<longleftrightarrow> (\<exists>j. j \<in> set (ends a t i) \<and> k \<in> set (ends b t j))"
  by auto

lemma ends_Bol_iff: "j \<in> set (ends Bol t i) \<longleftrightarrow> i = 0 \<and> j = 0"
  by auto

lemma ends_Eol_iff:
  "j \<in> set (ends Eol t i) \<longleftrightarrow> j = i \<and> (i = length t \<or> (i + 1 = length t \<and> t ! i = 10))"
  by auto

lemma re_match_iff: "re_match r s \<longleftrightarrow> (\<exists>j. j \<in> set (ends r s 0))"
  by (cases "ends r s 0") (auto simp: re_match_def)


lemma prefix_drop_split: "prefix x (drop i t) \<Longrightarrow> drop i t = x @ drop (i + length x) t"
proof -
  assume "prefix x (drop i t)"
  then obtain z where z: "drop i t = x @ z" by (auto simp: prefix_def)
  have "drop (length x) (drop i t) = z" by (simp add: z)
  then have "z = drop (i + length x) t" by (simp add: add.commute)
  with z show ?thesis by simp
qed

lemma body_split:
  assumes "j \<in> set (ends (body_until close) t i)" "close \<noteq> []"
  shows "\<exists>b. drop i t = b @ drop j t \<and> one_line_without close b"
proof -
  from assms(1) have ij: "i \<le> j" and ok: "\<And>k. i \<le> k \<Longrightarrow> k < j \<Longrightarrow> body_ok close t k"
    by (auto simp: ends_body_until_iff)
  define b where "b = take (j - i) (drop i t)"
  have split: "drop i t = b @ drop j t"
    using ij by (simp add: b_def) (metis append_take_drop_id drop_drop le_add_diff_inverse2)
  have len: "length b \<le> j - i" by (simp add: b_def)
  have "10 \<notin> set b"
  proof
    assume "10 \<in> set b"
    then obtain m where m: "m < length b" "b ! m = 10" by (auto simp: in_set_conv_nth)
    have "i + m < j" using m(1) len by simp
    from ok[OF _ this] have "i + m < length t" "t ! (i + m) \<noteq> 10" by (auto simp: body_ok_def)
    moreover have "b ! m = t ! (i + m)" using m(1) \<open>i + m < length t\<close> by (simp add: b_def)
    ultimately show False using m(2) by simp
  qed
  moreover have "\<not> sublist close b"
  proof
    assume "sublist close b"
    then obtain p q where pq: "b = p @ close @ q" by (auto simp: sublist_def)
    have "length p < length b" using assms(2) by (simp add: pq)
    then have lt: "i + length p < j" using len by simp
    have "drop (i + length p) t = drop (length p) (drop i t)" by (simp add: add.commute)
    also have "\<dots> = close @ q @ drop j t" by (simp add: split pq)
    finally have "prefix close (drop (i + length p) t)" by simp
    then show False using ok[OF _ lt] by (simp add: body_ok_def)
  qed
  ultimately show ?thesis using split by (auto simp: one_line_without_def)
qed

lemma body_join:
  assumes "hd close \<notin> set (tl close)" "close \<noteq> []" "one_line_without close b"
  shows "length pre + length b \<in> set (ends (body_until close) (pre @ b @ close @ rest) (length pre))"
proof -
  have "body_ok close (pre @ b @ close @ rest) k" if "length pre \<le> k" "k < length pre + length b" for k
  proof -
    define m where "m = k - length pre"
    have m: "m < length b" "k = length pre + m" using that by (auto simp: m_def)
    have d: "drop k (pre @ b @ close @ rest) = drop m b @ close @ rest"
      using m by simp
    have ne: "drop m b \<noteq> []" using m(1) by simp
    have "\<not> prefix close (drop m b @ close @ rest)"
    proof
      assume p: "prefix close (drop m b @ close @ rest)"
      from tag_no_overlap[OF p ne assms(1)] have "length close \<le> length (drop m b)" .
      with p have "prefix close (drop m b)"
        by (metis prefix_length_prefix prefixI)
      then have "sublist close (drop m b)" by (rule prefix_imp_sublist)
      then have "sublist close b"
        using sublist_drop sublist_order.order_trans by blast
      then show False using assms(3) by (simp add: one_line_without_def)
    qed
    moreover have "(pre @ b @ close @ rest) ! k = b ! m"
      using m by (simp add: nth_append)
    moreover have "b ! m \<noteq> 10" using assms(3) m(1) by (auto simp: one_line_without_def in_set_conv_nth)
    ultimately show ?thesis using m by (simp add: body_ok_def d)
  qed
  then show ?thesis by (simp add: ends_body_until_iff)
qed

lemma eol_split:
  assumes "i = length t \<or> (i + 1 = length t \<and> t ! i = 10)"
  shows "drop i t = [] \<or> drop i t = NEWLINE"
proof -
  from assms consider "i = length t" | "i + 1 = length t" "t ! i = 10" by blast
  then show ?thesis
  proof cases
    case 1 then show ?thesis by simp
  next
    case 2
    then have "drop i t = t ! i # drop (Suc i) t"
      by (metis Cons_nth_drop_Suc Suc_eq_plus1 lessI)
    then show ?thesis using 2 by (simp add: NEWLINE_def)
  qed
qed




lemma ends_Seq_Lit_iff:
  "k \<in> set (ends (Seq (Lit x) r) t i) \<longleftrightarrow> prefix x (drop i t) \<and> k \<in> set (ends r t (i + length x))"
  by simp

lemma ends_Seq_Bol_iff:
  "k \<in> set (ends (Seq Bol r) t i) \<longleftrightarrow> i = 0 \<and> k \<in> set (ends r t 0)"
  by auto

lemma ends_Seq_body_iff:
  "k \<in> set (ends (Seq (body_until c) r) t i) \<longleftrightarrow>
     (\<exists>j. j \<in> set (ends (body_until c) t i) \<and> k \<in> set (ends r t j))"
  by (rule ends_Seq_iff)

lemma format_positions:
  "re_match pattern s \<longleftrightarrow>
     (\<exists>j1 j2. prefix REASONING_OPEN (drop 0 s) \<and>
        j1 \<in> set (ends (body_until REASONING_CLOSE) s (0 + length REASONING_OPEN)) \<and>
        prefix REASONING_CLOSE (drop j1 s) \<and>
        prefix NEWLINE (drop (j1 + length REASONING_CLOSE) s) \<and>
        prefix ANSWER_OPEN (drop (j1 + length REASONING_CLOSE + length NEWLINE) s) \<and>
        j2 \<in> set (ends (body_until ANSWER_CLOSE) s
                 (j1 + length REASONING_CLOSE + length NEWLINE + length ANSWER_OPEN)) \<and>
        prefix ANSWER_CLOSE (drop j2 s) \<and>
        (j2 + length ANSWER_CLOSE = length s \<or>
         (j2 + length ANSWER_CLOSE + 1 = length s \<and> s ! (j2 + length ANSWER_CLOSE) = 10)))"
proof -
  have "re_match pattern s \<longleftrightarrow>
     (\<exists>k. prefix REASONING_OPEN (drop 0 s) \<and>
       (\<exists>j1. j1 \<in> set (ends (body_until REASONING_CLOSE) s (0 + length REASONING_OPEN)) \<and>
        prefix REASONING_CLOSE (drop j1 s) \<and>
        prefix NEWLINE (drop (j1 + length REASONING_CLOSE) s) \<and>
        prefix ANSWER_OPEN (drop (j1 + length REASONING_CLOSE + length NEWLINE) s) \<and>
        (\<exists>j2. j2 \<in> set (ends (body_until ANSWER_CLOSE) s
                 (j1 + length REASONING_CLOSE + length NEWLINE + length ANSWER_OPEN)) \<and>
        prefix ANSWER_CLOSE (drop j2 s) \<and> k = j2 + length ANSWER_CLOSE \<and>
        (j2 + length ANSWER_CLOSE = length s \<or>
         (j2 + length ANSWER_CLOSE + 1 = length s \<and> s ! (j2 + length ANSWER_CLOSE) = 10)))))"
    unfolding re_match_iff pattern_def
    by (simp only: ends_Seq_Lit_iff ends_Seq_Bol_iff ends_Seq_body_iff ends_Eol_iff simp_thms)
  also have "\<dots> \<longleftrightarrow> (\<exists>j1 j2. prefix REASONING_OPEN (drop 0 s) \<and>
        j1 \<in> set (ends (body_until REASONING_CLOSE) s (0 + length REASONING_OPEN)) \<and>
        prefix REASONING_CLOSE (drop j1 s) \<and>
        prefix NEWLINE (drop (j1 + length REASONING_CLOSE) s) \<and>
        prefix ANSWER_OPEN (drop (j1 + length REASONING_CLOSE + length NEWLINE) s) \<and>
        j2 \<in> set (ends (body_until ANSWER_CLOSE) s
                 (j1 + length REASONING_CLOSE + length NEWLINE + length ANSWER_OPEN)) \<and>
        prefix ANSWER_CLOSE (drop j2 s) \<and>
        (j2 + length ANSWER_CLOSE = length s \<or>
         (j2 + length ANSWER_CLOSE + 1 = length s \<and> s ! (j2 + length ANSWER_CLOSE) = 10)))"
    by blast
  finally show ?thesis .
qed




lemma REASONING_CLOSE_tag:
  "hd REASONING_CLOSE \<notin> set (tl REASONING_CLOSE)" "REASONING_CLOSE \<noteq> []"
  by (simp_all add: REASONING_CLOSE_def ustr_def)

lemma re_match_pattern_iff:
  "re_match pattern s \<longleftrightarrow>
     (\<exists>r a e. s = REASONING_OPEN @ r @ REASONING_CLOSE @ NEWLINE @ ANSWER_OPEN @ a @ ANSWER_CLOSE @ e \<and>
        (e = [] \<or> e = NEWLINE) \<and> one_line_without REASONING_CLOSE r \<and> one_line_without ANSWER_CLOSE a)"
proof
  assume "re_match pattern s"
  then obtain j1 j2 where
    p0: "prefix REASONING_OPEN (drop 0 s)" and
    b1: "j1 \<in> set (ends (body_until REASONING_CLOSE) s (0 + length REASONING_OPEN))" and
    p1: "prefix REASONING_CLOSE (drop j1 s)" and
    p2: "prefix NEWLINE (drop (j1 + length REASONING_CLOSE) s)" and
    p3: "prefix ANSWER_OPEN (drop (j1 + length REASONING_CLOSE + length NEWLINE) s)" and
    b2: "j2 \<in> set (ends (body_until ANSWER_CLOSE) s
                 (j1 + length REASONING_CLOSE + length NEWLINE + length ANSWER_OPEN))" and
    p4: "prefix ANSWER_CLOSE (drop j2 s)" and
    eol: "j2 + length ANSWER_CLOSE = length s \<or>
         (j2 + length ANSWER_CLOSE + 1 = length s \<and> s ! (j2 + length ANSWER_CLOSE) = 10)"
    unfolding format_positions by blast
  from body_split[OF b1 REASONING_CLOSE_tag(2)] obtain r where
    r: "drop (0 + length REASONING_OPEN) s = r @ drop j1 s" "one_line_without REASONING_CLOSE r" by blast
  from body_split[OF b2 ANSWER_CLOSE_tag(2)] obtain a where
    a: "drop (j1 + length REASONING_CLOSE + length NEWLINE + length ANSWER_OPEN) s = a @ drop j2 s"
       "one_line_without ANSWER_CLOSE a" by blast
  define e where "e = drop (j2 + length ANSWER_CLOSE) s"
  have e: "e = [] \<or> e = NEWLINE" unfolding e_def by (rule eol_split[OF eol])
  have "s = drop 0 s" by simp
  also have "\<dots> = REASONING_OPEN @ drop (0 + length REASONING_OPEN) s"
    by (rule prefix_drop_split[OF p0])
  also have "\<dots> = REASONING_OPEN @ r @ drop j1 s" by (simp only: r(1))
  also have "\<dots> = REASONING_OPEN @ r @ REASONING_CLOSE @ drop (j1 + length REASONING_CLOSE) s"
    using prefix_drop_split[OF p1] by simp
  also have "\<dots> = REASONING_OPEN @ r @ REASONING_CLOSE @ NEWLINE
                    @ drop (j1 + length REASONING_CLOSE + length NEWLINE) s"
    using prefix_drop_split[OF p2] by simp
  also have "\<dots> = REASONING_OPEN @ r @ REASONING_CLOSE @ NEWLINE @ ANSWER_OPEN
                    @ drop (j1 + length REASONING_CLOSE + length NEWLINE + length ANSWER_OPEN) s"
    using prefix_drop_split[OF p3] by simp
  also have "\<dots> = REASONING_OPEN @ r @ REASONING_CLOSE @ NEWLINE @ ANSWER_OPEN @ a @ drop j2 s"
    by (simp only: a(1))
  also have "\<dots> = REASONING_OPEN @ r @ REASONING_CLOSE @ NEWLINE @ ANSWER_OPEN @ a @ ANSWER_CLOSE @ e"
    using prefix_drop_split[OF p4] by (simp add: e_def)
  finally show "\<exists>r a e. s = REASONING_OPEN @ r @ REASONING_CLOSE @ NEWLINE @ ANSWER_OPEN @ a @ ANSWER_CLOSE @ e \<and>
        (e = [] \<or> e = NEWLINE) \<and> one_line_without REASONING_CLOSE r \<and> one_line_without ANSWER_CLOSE a"
    using e r(2) a(2) by blast
next
  assume "\<exists>r a e. s = REASONING_OPEN @ r @ REASONING_CLOSE @ NEWLINE @ ANSWER_OPEN @ a @ ANSWER_CLOSE @ e \<and>
        (e = [] \<or> e = NEWLINE) \<and> one_line_without REASONING_CLOSE r \<and> one_line_without ANSWER_CLOSE a"
  then obtain r a e where
    s: "s = REASONING_OPEN @ r @ REASONING_CLOSE @ NEWLINE @ ANSWER_OPEN @ a @ ANSWER_CLOSE @ e" and
    e: "e = [] \<or> e = NEWLINE" and cr: "one_line_without REASONING_CLOSE r" and ca: "one_line_without ANSWER_CLOSE a"
    by blast
  define j1 where "j1 = length REASONING_OPEN + length r"
  define pre2 where "pre2 = REASONING_OPEN @ r @ REASONING_CLOSE @ NEWLINE @ ANSWER_OPEN"
  define j2 where "j2 = length pre2 + length a"
  have s2: "s = pre2 @ a @ ANSWER_CLOSE @ e" by (simp add: s pre2_def)
  have lp: "length pre2 = j1 + length REASONING_CLOSE + length NEWLINE + length ANSWER_OPEN"
    by (simp add: pre2_def j1_def)
  have "prefix REASONING_OPEN (drop 0 s)" by (simp add: s)
  moreover have "j1 \<in> set (ends (body_until REASONING_CLOSE) s (0 + length REASONING_OPEN))"
    unfolding s j1_def using body_join[OF REASONING_CLOSE_tag cr, of REASONING_OPEN] by simp
  moreover have "prefix REASONING_CLOSE (drop j1 s)" by (simp add: s j1_def)
  moreover have "prefix NEWLINE (drop (j1 + length REASONING_CLOSE) s)" by (simp add: s j1_def)
  moreover have "prefix ANSWER_OPEN (drop (j1 + length REASONING_CLOSE + length NEWLINE) s)"
    by (simp add: s j1_def)
  moreover have "j2 \<in> set (ends (body_until ANSWER_CLOSE) s
                 (j1 + length REASONING_CLOSE + length NEWLINE + length ANSWER_OPEN))"
    unfolding s2 j2_def lp[symmetric] by (rule body_join[OF ANSWER_CLOSE_tag ca])
  moreover have "prefix ANSWER_CLOSE (drop j2 s)" by (simp add: s2 j2_def)
  moreover have "j2 + length ANSWER_CLOSE = length s \<or>
         (j2 + length ANSWER_CLOSE + 1 = length s \<and> s ! (j2 + length ANSWER_CLOSE) = 10)"
  proof -
    have "s = (pre2 @ a @ ANSWER_CLOSE) @ e" by (simp add: s2)
    moreover have "length (pre2 @ a @ ANSWER_CLOSE) = j2 + length ANSWER_CLOSE" by (simp add: j2_def)
    ultimately show ?thesis using e by (auto simp: NEWLINE_def nth_append)
  qed
  ultimately show "re_match pattern s" unfolding format_positions by blast
qed


section \<open>Facts about the reward functions\<close>

lemma re_match_pattern_format: "re_match pattern s \<longleftrightarrow> format_as_matched s"
  by (simp only: re_match_pattern_iff format_as_matched_def)

lemma comprehension_Inr_iff:
  "comprehension f xs = Inr ys \<longleftrightarrow> list_all2 (\<lambda>x y. f x = Inr y) xs ys"
proof (induction xs arbitrary: ys)
  case Nil
  show ?case by auto
next
  case (Cons x xs)
  show ?case
  proof (cases "f x")
    case (Inl e)
    then show ?thesis by (auto simp: list_all2_Cons1)
  next
    case (Inr y)
    show ?thesis
    proof (cases "comprehension f xs")
      case (Inl e)
      then have "\<not> list_all2 (\<lambda>x y. f x = Inr y) xs zs" for zs
        using Cons.IH[of zs] by simp
      then show ?thesis using Inl Inr by (auto simp: list_all2_Cons1)
    next
      case r: (Inr zs)
      have step: "comprehension f (x # xs) = Inr (y # zs)" by (simp add: r Inr)
      have ih: "list_all2 (\<lambda>x y. f x = Inr y) xs ws \<longleftrightarrow> ws = zs" for ws
        using Cons.IH[of ws] r by auto
      show ?thesis unfolding step by (auto simp: list_all2_Cons1 Inr ih)
    qed
  qed
qed

lemma comprehension_returns_iff:
  "(\<exists>ys. comprehension f xs = Inr ys) \<longleftrightarrow> (\<forall>x \<in> set xs. \<exists>y. f x = Inr y)"
proof (induction xs)
  case Nil
  show ?case by simp
next
  case (Cons x xs)
  show ?case
  proof (cases "f x")
    case (Inl e)
    then show ?thesis by auto
  next
    case (Inr y)
    then show ?thesis using Cons.IH by (cases "comprehension f xs") auto
  qed
qed

lemma has_content_iff: "has_content c \<longleftrightarrow> (\<exists>r. first_content c = Inr r)"
  by (cases "first_content c") (auto simp: has_content_def)

lemma contents_returns_iff:
  "(\<exists>rs. comprehension first_content cs = Inr rs) \<longleftrightarrow> list_all has_content cs"
  by (simp add: comprehension_returns_iff list_all_iff has_content_iff)

lemma format_reward_func_Inr:
  assumes "format_reward_func completions kwargs = Inr rewards"
  shows "\<exists>responses. comprehension first_content completions = Inr responses \<and>
           rewards = map (\<lambda>r. if re_match pattern r then 1 else 0) responses"
  using assms by (cases "comprehension first_content completions")
    (auto simp: format_reward_func_def Let_def comp_def)

lemma print_text_eq:
  "print_text encodable text out =
     (if list_all encodable text
      then (if encodable 10 then (Inr (), out @ text @ [10])
            else (Inl UnicodeEncodeError, out @ text))
      else (Inl UnicodeEncodeError, out))"
  by (simp add: print_text_def stdout_write_def)

lemma correctness_reward_func_eq:
  "correctness_reward_func encodable prompts completions answer kwargs out =
     (case comprehension first_content completions of
        Inl e \<Rightarrow> (Inl e, out)
      | Inr responses \<Rightarrow>
          (case report prompts completions answer responses (map extract_xml_answer responses) of
             Inl e \<Rightarrow> (Inl e, out)
           | Inr text \<Rightarrow>
               (if list_all encodable text
                then (if encodable 10
                      then (Inr (scores (map extract_xml_answer responses) answer),
                            out @ text @ [10])
                      else (Inl UnicodeEncodeError, out @ text))
                else (Inl UnicodeEncodeError, out))))"
  by (simp add: correctness_reward_func_def print_text_eq Let_def split: sum.splits)

lemma correctness_reward_func_Inr:
  assumes "fst (correctness_reward_func encodable prompts completions answer kwargs out) = Inr rewards"
  shows "\<exists>responses. comprehension first_content completions = Inr responses \<and>
           rewards = scores (map extract_xml_answer responses) answer"
  using assms unfolding correctness_reward_func_eq
  by (auto split: sum.splits if_splits)

lemma format_reward_func_nth:
  assumes "format_reward_func completions kwargs = Inr rewards" "i < length completions"
  shows "length rewards = length completions \<and>
         (\<exists>c. first_content (completions ! i) = Inr c \<and>
              rewards ! i = (if re_match pattern c then 1 else 0))"
proof -
  from format_reward_func_Inr[OF assms(1)] obtain responses where
    r: "comprehension first_content completions = Inr responses" and
    m: "rewards = map (\<lambda>r. if re_match pattern r then 1 else 0) responses" by blast
  from r have all: "list_all2 (\<lambda>x y. first_content x = Inr y) completions responses"
    by (simp add: comprehension_Inr_iff)
  then have len: "length responses = length completions" by (simp add: list_all2_lengthD)
  from all assms(2) have "first_content (completions ! i) = Inr (responses ! i)"
    by (rule list_all2_nthD)
  then show ?thesis using m len assms(2) by simp
qed

lemma correctness_reward_func_nth:
  assumes "fst (correctness_reward_func encodable prompts completions answer kwargs out) = Inr rewards"
  shows "length rewards = min (length completions) (length answer) \<and>
         (\<forall>i. i < length completions \<and> i < length answer \<longrightarrow>
            (\<exists>c. first_content (completions ! i) = Inr c \<and>
                 rewards ! i = (if Some (extract_xml_answer c) = answer ! i then 2 else 0)))"
proof -
  from correctness_reward_func_Inr[OF assms] obtain responses where
    r: "comprehension first_content completions = Inr responses" and
    m: "rewards = scores (map extract_xml_answer responses) answer" by blast
  from r have all: "list_all2 (\<lambda>x y. first_content x = Inr y) completions responses"
    by (simp add: comprehension_Inr_iff)
  then have len: "length responses = length completions" by (simp add: list_all2_lengthD)
  have "first_content (completions ! i) = Inr (responses ! i)" if "i < length completions" for i
    using all that by (rule list_all2_nthD)
  then show ?thesis using m len by (auto simp: scores_def)
qed

lemma matched_one_line:
  assumes "format_as_matched (REASONING_OPEN @ r @ REASONING_CLOSE @ NEWLINE @ ANSWER_OPEN @ a @ ANSWER_CLOSE)"
  shows "10 \<notin> set r \<and> 10 \<notin> set a"
proof -
  let ?s = "REASONING_OPEN @ r @ REASONING_CLOSE @ NEWLINE @ ANSWER_OPEN @ a @ ANSWER_CLOSE"
  from assms obtain r' a' e where
    eq: "?s = REASONING_OPEN @ r' @ REASONING_CLOSE @ NEWLINE @ ANSWER_OPEN @ a' @ ANSWER_CLOSE @ e" and
    e: "e = [] \<or> e = NEWLINE" and
    c: "one_line_without REASONING_CLOSE r'" "one_line_without ANSWER_CLOSE a'"
    unfolding format_as_matched_def by blast
  have "last ?s = 62" by (simp add: ANSWER_CLOSE_def ustr_def)
  moreover have "last (REASONING_OPEN @ r' @ REASONING_CLOSE @ NEWLINE @ ANSWER_OPEN @ a' @ ANSWER_CLOSE @ NEWLINE) = 10"
    by (simp add: NEWLINE_def)
  ultimately have "e = []" using e eq by auto
  have tags: "count_list REASONING_OPEN 10 = 0" "count_list REASONING_CLOSE 10 = 0"
    "count_list ANSWER_OPEN 10 = 0" "count_list ANSWER_CLOSE 10 = 0" "count_list NEWLINE 10 = 1"
    by (simp_all add: REASONING_OPEN_def REASONING_CLOSE_def ANSWER_OPEN_def ANSWER_CLOSE_def
        NEWLINE_def ustr_def)
  have "count_list r' 10 = 0" "count_list a' 10 = 0"
    using c by (simp_all add: one_line_without_def count_list_0_iff)
  moreover have "count_list ?s 10 = count_list (REASONING_OPEN @ r' @ REASONING_CLOSE @ NEWLINE @ ANSWER_OPEN @ a' @ ANSWER_CLOSE @ e) 10"
    using eq by simp
  ultimately have "count_list r 10 + count_list a 10 = 0"
    using \<open>e = []\<close> by (simp add: tags)
  then show ?thesis by (simp add: count_list_0_iff)
qed

lemma list_getitem_Nil: "list_getitem [] i = None"
  by (simp add: list_getitem_def)

lemma report_returns_iff:
  assumes "length responses = length completions" "length extracted = length completions"
  shows "(\<exists>text. report prompts completions answer responses extracted = Inr text) \<longleftrightarrow>
           printable prompts completions answer"
proof (cases prompts)
  case Nil
  then show ?thesis by (simp add: report_def printable_def list_getitem_Nil)
next
  case (Cons prompt rest)
  note p = Cons
  show ?thesis
  proof (cases "prompt = []")
    case True
    then show ?thesis by (simp add: report_def printable_def list_getitem_Nil list_getitem_0 p)
  next
    case False
    then have l: "list_getitem prompt (- 1) = Some (last prompt)" by (rule list_getitem_last)
    show ?thesis
    proof (cases "(last prompt) ''content''")
      case None
      then show ?thesis using False by (simp add: report_def printable_def list_getitem_0 p l)
    next
      case (Some q)
      show ?thesis
      proof (cases answer)
        case Nil
        then show ?thesis
          using False Some by (simp add: report_def printable_def list_getitem_0 p l list_getitem_Nil)
      next
        case a: (Cons a0 as)
        show ?thesis
        proof (cases completions)
          case Nil
          then show ?thesis using assms False Some a
            by (simp add: report_def printable_def list_getitem_0 p l list_getitem_Nil)
        next
          case c: (Cons c0 cs)
          from assms c obtain r0 rs e0 es where "responses = r0 # rs" "extracted = e0 # es"
            by (cases responses; cases extracted) auto
          then show ?thesis using False Some a c
            by (simp add: report_def printable_def list_getitem_0 p l)
        qed
      qed
    qed
  qed
qed

lemma format_reward_func_returns_iff:
  "(\<exists>rs. format_reward_func completions kwargs = Inr rs) \<longleftrightarrow> list_all has_content completions"
proof -
  have "(\<exists>rs. format_reward_func completions kwargs = Inr rs) \<longleftrightarrow>
          (\<exists>rs. comprehension first_content completions = Inr rs)"
    by (cases "comprehension first_content completions") (auto simp: format_reward_func_def Let_def)
  then show ?thesis by (simp only: contents_returns_iff)
qed

lemma report_of_returns_iff:
  "(\<exists>text. report_of prompts completions answer = Inr text) \<longleftrightarrow>
     list_all has_content completions \<and> printable prompts completions answer"
proof (cases "comprehension first_content completions")
  case (Inl e)
  then have "\<not> list_all has_content completions"
    using contents_returns_iff[of completions] by simp
  then show ?thesis using Inl by (simp add: report_of_def)
next
  case (Inr responses)
  then have wf: "list_all has_content completions"
    using contents_returns_iff[of completions] by blast
  from Inr have len: "length responses = length completions"
    by (simp add: comprehension_Inr_iff list_all2_lengthD)
  have "(\<exists>text. report_of prompts completions answer = Inr text) \<longleftrightarrow>
         (\<exists>text. report prompts completions answer responses (map extract_xml_answer responses) = Inr text)"
    by (simp add: report_of_def Inr)
  also have "\<dots> \<longleftrightarrow> printable prompts completions answer"
    by (rule report_returns_iff) (simp_all add: len)
  finally show ?thesis using wf by simp
qed

lemma encodable_report_imp:
  "encodable_report encodable prompts completions answer \<Longrightarrow>
     list_all has_content completions \<and> printable prompts completions answer"
  using report_of_returns_iff[of prompts completions answer]
  by (cases "report_of prompts completions answer") (auto simp: encodable_report_def)

lemma correctness_reward_func_returns_iff:
  "(\<exists>rs. fst (correctness_reward_func encodable prompts completions answer kwargs out) = Inr rs) \<longleftrightarrow>
     encodable_report encodable prompts completions answer"
  unfolding correctness_reward_func_eq encodable_report_def report_of_def
  by (simp split: sum.splits)

lemma first_content_error:
  "first_content completion = Inl e \<Longrightarrow> e = IndexError \<or> e = KeyError"
  by (auto simp: first_content_def split: option.splits)

lemma comprehension_error:
  "comprehension f xs = Inl e \<Longrightarrow> \<exists>x \<in> set xs. f x = Inl e"
proof (induction xs)
  case Nil
  then show ?case by simp
next
  case (Cons x xs)
  then show ?case by (cases "f x"; cases "comprehension f xs") auto
qed

lemma contents_error:
  "comprehension first_content completions = Inl e \<Longrightarrow> e = IndexError \<or> e = KeyError"
  using comprehension_error first_content_error by blast

lemma report_error:
  "report prompts completions answer responses extracted = Inl e \<Longrightarrow>
     e = IndexError \<or> e = KeyError"
  by (auto simp: report_def split: option.splits)

lemma format_reward_func_error:
  "format_reward_func completions kwargs = Inl e \<Longrightarrow> e = IndexError \<or> e = KeyError"
  using contents_error[of completions e]
  by (cases "comprehension first_content completions") (auto simp: format_reward_func_def Let_def)

lemma correctness_reward_func_error:
  assumes "fst (correctness_reward_func encodable prompts completions answer kwargs out) = Inl e"
  shows "e = IndexError \<or> e = KeyError \<or> e = UnicodeEncodeError"
proof (cases "comprehension first_content completions")
  case (Inl e')
  then show ?thesis using assms contents_error[of completions e']
    by (auto simp: correctness_reward_func_eq)
next
  case (Inr responses)
  show ?thesis
  proof (cases "report prompts completions answer responses (map extract_xml_answer responses)")
    case (Inl e')
    then show ?thesis using assms Inr report_error[OF Inl]
      by (auto simp: correctness_reward_func_eq)
  next
    case r: (Inr printed_text)
    then show ?thesis using assms Inr
      by (auto simp: correctness_reward_func_eq split: if_splits)
  qed
qed

lemma correctness_reward_func_by_report:
  "fst (correctness_reward_func encodable prompts completions answer kwargs out) =
     (case report_of prompts completions answer of
        Inl e \<Rightarrow> Inl e
      | Inr printed_text \<Rightarrow>
          (if list_all encodable printed_text \<and> encodable 10
           then fst (correctness_reward_func encodable prompts completions answer kwargs out)
           else Inl UnicodeEncodeError))"
proof (cases "comprehension first_content completions")
  case (Inl e)
  then show ?thesis by (simp add: correctness_reward_func_eq report_of_def)
next
  case (Inr responses)
  then show ?thesis
    by (cases "report prompts completions answer responses (map extract_xml_answer responses)")
      (simp_all add: correctness_reward_func_eq report_of_def)
qed

lemma report_of_error:
  "report_of prompts completions answer = Inl e \<Longrightarrow> e = IndexError \<or> e = KeyError"
proof (cases "comprehension first_content completions")
  case (Inl e')
  assume "report_of prompts completions answer = Inl e"
  then show ?thesis using Inl contents_error[of completions e'] by (simp add: report_of_def)
next
  case (Inr responses)
  assume "report_of prompts completions answer = Inl e"
  then show ?thesis using Inr report_error by (simp add: report_of_def)
qed

lemma correctness_reward_func_encode_error_iff:
  "fst (correctness_reward_func encodable prompts completions answer kwargs out)
       = Inl UnicodeEncodeError \<longleftrightarrow>
     list_all has_content completions \<and> printable prompts completions answer \<and>
     \<not> encodable_report encodable prompts completions answer"
proof (cases "report_of prompts completions answer")
  case (Inl e)
  then have no: "\<not> (list_all has_content completions \<and> printable prompts completions answer)"
    using report_of_returns_iff[of prompts completions answer] by simp
  have "fst (correctness_reward_func encodable prompts completions answer kwargs out) = Inl e"
    using Inl by (subst correctness_reward_func_by_report) simp
  moreover have "e = IndexError \<or> e = KeyError" using Inl by (rule report_of_error)
  ultimately show ?thesis using no by auto
next
  case (Inr printed_text)
  then have yes: "list_all has_content completions \<and> printable prompts completions answer"
    using report_of_returns_iff[of prompts completions answer] by blast
  have enc: "encodable_report encodable prompts completions answer \<longleftrightarrow>
               list_all encodable printed_text \<and> encodable 10"
    by (simp add: encodable_report_def Inr)
  show ?thesis
  proof (cases "list_all encodable printed_text \<and> encodable 10")
    case True
    then have "\<exists>rs. fst (correctness_reward_func encodable prompts completions answer kwargs out) = Inr rs"
      using correctness_reward_func_returns_iff[of encodable prompts completions answer kwargs out] enc
      by simp
    then show ?thesis using True enc by auto
  next
    case False
    then have "fst (correctness_reward_func encodable prompts completions answer kwargs out)
                 = Inl UnicodeEncodeError"
      using Inr by (subst correctness_reward_func_by_report) auto
    then show ?thesis using False enc yes by simp
  qed
qed

lemma encodable_report_mono:
  assumes "encodable_report e1 prompts completions answer" "\<And>c. e1 c \<Longrightarrow> e2 c"
  shows "encodable_report e2 prompts completions answer"
  using assms
  by (cases "report_of prompts completions answer")
    (auto simp: encodable_report_def list_all_iff)

lemma ascii_utf8: "ascii c \<Longrightarrow> utf8 c"
  by (simp add: ascii_def utf8_def)

lemma correctness_reward_func_encodable:
  assumes "encodable_report e1 prompts completions answer"
    and "encodable_report e2 prompts completions answer"
  shows "fst (correctness_reward_func e1 prompts completions answer kwargs out) =
         fst (correctness_reward_func e2 prompts completions answer kwargs' out')"
  using assms unfolding correctness_reward_func_eq encodable_report_def report_of_def
  by (auto split: sum.splits)

lemmas tag_eval = REASONING_OPEN_def REASONING_CLOSE_def NEWLINE_def

section \<open>Properties of the reward functions\<close>

text \<open>
  C2, amended.  Whenever \<open>format_reward_func\<close> returns, its \<open>i\<close>-th reward is 1.0
  exactly when the content of the \<open>i\<close>-th completion is \<open><reasoning>\<close>, a reasoning
  text containing neither \<open></reasoning>\<close> nor a newline, \<open></reasoning>\<close>, one newline,
  \<open><answer>\<close>, an answer text containing neither \<open></answer>\<close> nor a newline, and
  \<open></answer>\<close>, optionally followed by one newline that ends the text; it is 0.0
  otherwise.
\<close>

theorem format_reward_func_matched:
  assumes "format_reward_func completions kwargs = Inr rewards" "i < length completions"
  shows "\<exists>c. first_content (completions ! i) = Inr c \<and>
             rewards ! i = (if format_as_matched c then 1 else 0)"
proof -
  from format_reward_func_nth[OF assms] obtain c where
    c: "first_content (completions ! i) = Inr c"
       "rewards ! i = (if re_match pattern c then 1 else 0)" by blast
  have "re_match pattern c \<longleftrightarrow> format_as_matched c" by (rule re_match_pattern_format)
  with c show ?thesis by simp
qed

text \<open>The theorem at a batch of two completions, one in the format and one not.\<close>

theorem format_reward_func_matched_witness:
  "format_reward_func [[assistant (ustr ''<reasoning>2 + 2 = 4</reasoning>\<newline><answer>4</answer>'')],
                       [assistant (ustr ''The answer is 4.'')]] () = Inr [1, 0] \<and>
   format_as_matched (ustr ''<reasoning>2 + 2 = 4</reasoning>\<newline><answer>4</answer>'') \<and>
   \<not> format_as_matched (ustr ''The answer is 4.'')"
proof -
  let ?good = "ustr ''<reasoning>2 + 2 = 4</reasoning>\<newline><answer>4</answer>''"
  let ?bad = "ustr ''The answer is 4.''"
  let ?cs = "[[assistant ?good], [assistant ?bad]]"
  have run: "format_reward_func ?cs () = Inr [1, 0]" by code_simp
  have c0: "first_content (?cs ! 0) = Inr ?good" and c1: "first_content (?cs ! 1) = Inr ?bad"
    by (simp_all add: first_content_def list_getitem_def assistant_def)
  from format_reward_func_matched[OF run, of 0] c0
  have "([1, 0] :: real list) ! 0 = (if format_as_matched ?good then 1 else 0)" by simp
  then have g: "format_as_matched ?good" by (simp split: if_splits)
  from format_reward_func_matched[OF run, of 1] c1
  have "([1, 0] :: real list) ! 1 = (if format_as_matched ?bad then 1 else 0)" by simp
  then have b: "\<not> format_as_matched ?bad" by (simp split: if_splits)
  from run g b show ?thesis by blast
qed

text \<open>
  C2 as worded fails in both directions: a reasoning text of two lines has the worded
  form and scores 0.0, and a text with a newline after \<open></answer>\<close> has not the worded
  form and scores 1.0.
\<close>

theorem format_as_specified_counterexample:
  "format_as_specified (ustr ''<reasoning>a\<newline>b</reasoning>\<newline><answer>4</answer>'') \<and>
   format_reward_func
     [[assistant (ustr ''<reasoning>a\<newline>b</reasoning>\<newline><answer>4</answer>'')]] () = Inr [0] \<and>
   \<not> format_as_specified (ustr ''<reasoning>a</reasoning>\<newline><answer>4</answer>\<newline>'') \<and>
   format_reward_func
     [[assistant (ustr ''<reasoning>a</reasoning>\<newline><answer>4</answer>\<newline>'')]] () = Inr [1]"
proof (intro conjI)
  have "ustr ''<reasoning>a\<newline>b</reasoning>\<newline><answer>4</answer>'' =
          REASONING_OPEN @ ustr ''a\<newline>b'' @ REASONING_CLOSE @ NEWLINE @ ANSWER_OPEN @ ustr ''4'' @ ANSWER_CLOSE"
    by (simp add: str_eval tag_eval)
  moreover have "\<not> sublist REASONING_CLOSE (ustr ''a\<newline>b'')" "\<not> sublist ANSWER_CLOSE (ustr ''4'')"
    by (simp_all add: str_eval tag_eval)
  ultimately show "format_as_specified (ustr ''<reasoning>a\<newline>b</reasoning>\<newline><answer>4</answer>'')"
    unfolding format_as_specified_def by blast
next
  show "format_reward_func
     [[assistant (ustr ''<reasoning>a\<newline>b</reasoning>\<newline><answer>4</answer>'')]] () = Inr [0]"
    by code_simp
next
  show "\<not> format_as_specified (ustr ''<reasoning>a</reasoning>\<newline><answer>4</answer>\<newline>'')"
  proof
    assume "format_as_specified (ustr ''<reasoning>a</reasoning>\<newline><answer>4</answer>\<newline>'')"
    then obtain r a where
      "ustr ''<reasoning>a</reasoning>\<newline><answer>4</answer>\<newline>'' =
         REASONING_OPEN @ r @ REASONING_CLOSE @ NEWLINE @ ANSWER_OPEN @ a @ ANSWER_CLOSE"
      unfolding format_as_specified_def by blast
    then have "last (ustr ''<reasoning>a</reasoning>\<newline><answer>4</answer>\<newline>'') =
         last (REASONING_OPEN @ r @ REASONING_CLOSE @ NEWLINE @ ANSWER_OPEN @ a @ ANSWER_CLOSE)"
      by simp
    then show False by (simp add: ustr_def ANSWER_CLOSE_def)
  qed
next
  show "format_reward_func
     [[assistant (ustr ''<reasoning>a</reasoning>\<newline><answer>4</answer>\<newline>'')]] () = Inr [1]"
    by code_simp
qed

text \<open>
  C8.  A completion of the shape \<open><reasoning>r</reasoning>\<close>, newline,
  \<open><answer>a</answer>\<close> whose \<open>r\<close> or \<open>a\<close> contains a newline gets reward 0.0,
  whatever else \<open>r\<close> and \<open>a\<close> contain.
\<close>

theorem format_reward_func_multiline:
  assumes "10 \<in> set r \<or> 10 \<in> set a"
    and "format_reward_func completions kwargs = Inr rewards"
    and "i < length completions"
    and "first_content (completions ! i) =
           Inr (REASONING_OPEN @ r @ REASONING_CLOSE @ NEWLINE @ ANSWER_OPEN @ a @ ANSWER_CLOSE)"
  shows "rewards ! i = 0"
proof -
  let ?c = "REASONING_OPEN @ r @ REASONING_CLOSE @ NEWLINE @ ANSWER_OPEN @ a @ ANSWER_CLOSE"
  from format_reward_func_nth[OF assms(2,3)] assms(4)
  have v: "rewards ! i = (if re_match pattern ?c then 1 else 0)" by simp
  have "\<not> re_match pattern ?c"
  proof
    assume "re_match pattern ?c"
    then have "format_as_matched ?c" by (simp only: re_match_pattern_format)
    from matched_one_line[OF this] assms(1) show False by simp
  qed
  with v show ?thesis by simp
qed

text \<open>The theorem at a completion whose reasoning takes two lines.\<close>

theorem format_reward_func_multiline_witness:
  "format_reward_func
     [[assistant (ustr ''<reasoning>2 + 2\<newline>= 4</reasoning>\<newline><answer>4</answer>'')]] () = Inr [0]"
proof -
  let ?c = "ustr ''<reasoning>2 + 2\<newline>= 4</reasoning>\<newline><answer>4</answer>''"
  have eq: "?c = REASONING_OPEN @ ustr ''2 + 2\<newline>= 4'' @ REASONING_CLOSE @ NEWLINE @ ANSWER_OPEN @ ustr ''4'' @ ANSWER_CLOSE"
    by (simp add: str_eval tag_eval)
  have nl: "10 \<in> set (ustr ''2 + 2\<newline>= 4'') \<or> 10 \<in> set (ustr ''4'')" by (simp add: ustr_def)
  have "list_all has_content [[assistant ?c]]"
    by (simp add: has_content_def first_content_def list_getitem_def assistant_def)
  then obtain rewards where run: "format_reward_func [[assistant ?c]] () = Inr rewards"
    using format_reward_func_returns_iff[of "[[assistant ?c]]" "()"] by blast
  then have len: "length rewards = 1" using format_reward_func_nth[OF run, of 0] by simp
  have fc: "first_content ([[assistant ?c]] ! 0) =
      Inr (REASONING_OPEN @ ustr ''2 + 2\<newline>= 4'' @ REASONING_CLOSE @ NEWLINE @ ANSWER_OPEN @ ustr ''4'' @ ANSWER_CLOSE)"
    unfolding eq[symmetric] by (simp add: first_content_def list_getitem_def assistant_def)
  from format_reward_func_multiline[OF nl run _ fc] have "rewards ! 0 = 0" by simp
  with len have "rewards = [0]" by (cases rewards) auto
  with run show ?thesis by simp
qed

text \<open>
  C7, amended.  When \<open>format_reward_func\<close> returns, the list has one element per
  completion, each 0.0 or 1.0; when \<open>correctness_reward_func\<close> returns, the list has
  as many elements as the shorter of completions and answers, each 0.0 or 2.0.
  \<open>format_reward_func\<close> returns exactly when every completion has a first message
  with a \<open>content\<close> entry, and raises IndexError or KeyError otherwise.
  \<open>correctness_reward_func\<close> returns exactly when, moreover, prompts, completions and
  answers are non-empty, the last message of the first prompt has a \<open>content\<close> entry,
  and the encoding of the output stream represents every character of the report and
  the newline; otherwise it raises IndexError or KeyError, or UnicodeEncodeError when
  only the encoding stands in the way.
\<close>

theorem reward_list_shape:
  "(format_reward_func completions kwargs = Inr rewards \<longrightarrow>
      length rewards = length completions \<and> set rewards \<subseteq> {0, 1}) \<and>
   (fst (correctness_reward_func encodable prompts completions answer kwargs' out) = Inr rewards' \<longrightarrow>
      length rewards' = min (length completions) (length answer) \<and> set rewards' \<subseteq> {0, 2}) \<and>
   ((\<exists>rs. format_reward_func completions kwargs = Inr rs) \<longleftrightarrow>
      list_all has_content completions) \<and>
   (format_reward_func completions kwargs = Inl e \<longrightarrow> e = IndexError \<or> e = KeyError) \<and>
   ((\<exists>rs. fst (correctness_reward_func encodable prompts completions answer kwargs' out) = Inr rs) \<longleftrightarrow>
      list_all has_content completions \<and> printable prompts completions answer \<and>
      encodable_report encodable prompts completions answer) \<and>
   (fst (correctness_reward_func encodable prompts completions answer kwargs' out) = Inl e' \<longrightarrow>
      e' = IndexError \<or> e' = KeyError \<or> e' = UnicodeEncodeError) \<and>
   (fst (correctness_reward_func encodable prompts completions answer kwargs' out)
        = Inl UnicodeEncodeError \<longleftrightarrow>
      list_all has_content completions \<and> printable prompts completions answer \<and>
      \<not> encodable_report encodable prompts completions answer)"
proof (intro conjI impI)
  assume a: "format_reward_func completions kwargs = Inr rewards"
  from format_reward_func_Inr[OF a] obtain responses where
    r: "comprehension first_content completions = Inr responses" and
    m: "rewards = map (\<lambda>r. if re_match pattern r then 1 else 0) responses" by blast
  from r have "length responses = length completions"
    by (simp add: comprehension_Inr_iff list_all2_lengthD)
  then show "length rewards = length completions" by (simp add: m)
  show "set rewards \<subseteq> {0, 1}" by (auto simp: m)
next
  assume a: "fst (correctness_reward_func encodable prompts completions answer kwargs' out) = Inr rewards'"
  from correctness_reward_func_nth[OF a]
  show "length rewards' = min (length completions) (length answer)" by blast
  from correctness_reward_func_Inr[OF a] obtain responses where
    "rewards' = scores (map extract_xml_answer responses) answer" by blast
  then show "set rewards' \<subseteq> {0, 2}" by (auto simp: scores_def split: if_splits)
next
  show "(\<exists>rs. format_reward_func completions kwargs = Inr rs) \<longleftrightarrow>
      list_all has_content completions"
    by (rule format_reward_func_returns_iff)
next
  assume "format_reward_func completions kwargs = Inl e"
  then show "e = IndexError \<or> e = KeyError" by (rule format_reward_func_error)
next
  show "(\<exists>rs. fst (correctness_reward_func encodable prompts completions answer kwargs' out) = Inr rs) \<longleftrightarrow>
      list_all has_content completions \<and> printable prompts completions answer \<and>
      encodable_report encodable prompts completions answer"
    using correctness_reward_func_returns_iff[of encodable prompts completions answer kwargs' out]
      encodable_report_imp[of encodable prompts completions answer] by blast
next
  assume "fst (correctness_reward_func encodable prompts completions answer kwargs' out) = Inl e'"
  then show "e' = IndexError \<or> e' = KeyError \<or> e' = UnicodeEncodeError"
    by (rule correctness_reward_func_error)
next
  show "fst (correctness_reward_func encodable prompts completions answer kwargs' out)
        = Inl UnicodeEncodeError \<longleftrightarrow>
      list_all has_content completions \<and> printable prompts completions answer \<and>
      \<not> encodable_report encodable prompts completions answer"
    by (rule correctness_reward_func_encode_error_iff)
qed

text \<open>The theorem at two completions and one answer.\<close>

theorem reward_list_shape_witness:
  "list_all has_content [[assistant (ustr ''<answer>4</answer>'')], [assistant (ustr ''5'')]] \<and>
   printable [[assistant (ustr ''What is 2+2?'')]]
     [[assistant (ustr ''<answer>4</answer>'')], [assistant (ustr ''5'')]] [Some (ustr ''4'')] \<and>
   encodable_report utf8 [[assistant (ustr ''What is 2+2?'')]]
     [[assistant (ustr ''<answer>4</answer>'')], [assistant (ustr ''5'')]] [Some (ustr ''4'')] \<and>
   (\<exists>rs. format_reward_func [[assistant (ustr ''<answer>4</answer>'')], [assistant (ustr ''5'')]] ()
            = Inr rs \<and> length rs = 2 \<and> set rs \<subseteq> {0, 1}) \<and>
   (\<exists>rs. fst (correctness_reward_func utf8 [[assistant (ustr ''What is 2+2?'')]]
                 [[assistant (ustr ''<answer>4</answer>'')], [assistant (ustr ''5'')]]
                 [Some (ustr ''4'')] () []) = Inr rs \<and> length rs = 1 \<and> set rs \<subseteq> {0, 2})"
proof -
  let ?cs = "[[assistant (ustr ''<answer>4</answer>'')], [assistant (ustr ''5'')]]"
  let ?ps = "[[assistant (ustr ''What is 2+2?'')]]"
  let ?as = "[Some (ustr ''4'')]"
  have wf: "list_all has_content ?cs"
    by (simp add: has_content_def first_content_def list_getitem_def assistant_def)
  have pr: "printable ?ps ?cs ?as" by (simp add: printable_def assistant_def)
  have "encodable_report ascii ?ps ?cs ?as" by code_simp
  then have en: "encodable_report utf8 ?ps ?cs ?as"
    by (rule encodable_report_mono) (rule ascii_utf8)
  note shape = reward_list_shape[where completions = ?cs and prompts = ?ps and answer = ?as
      and kwargs = "()" and kwargs' = "()" and out = "[]" and encodable = utf8
      and e = IndexError and e' = IndexError]
  have "\<exists>rs. format_reward_func ?cs () = Inr rs"
    using shape[of "[]" "[]", THEN conjunct2, THEN conjunct2, THEN conjunct1] wf by (rule iffD2)
  then obtain rs where rs: "format_reward_func ?cs () = Inr rs" ..
  from shape[of rs "[]", THEN conjunct1] rs
  have 1: "length rs = 2 \<and> set rs \<subseteq> {0, 1}" by simp
  have "\<exists>rs. fst (correctness_reward_func utf8 ?ps ?cs ?as () []) = Inr rs"
    using shape[of "[]" "[]", THEN conjunct2, THEN conjunct2, THEN conjunct2, THEN conjunct2,
        THEN conjunct1] conjI[OF wf conjI[OF pr en]]
    by (rule iffD2)
  then obtain rs' where rs': "fst (correctness_reward_func utf8 ?ps ?cs ?as () []) = Inr rs'" ..
  from shape[of "[]" rs', THEN conjunct2, THEN conjunct1] rs'
  have 2: "length rs' = 1 \<and> set rs' \<subseteq> {0, 2}" by simp
  from wf pr en rs 1 rs' 2 show ?thesis by (intro conjI exI[of _ rs] exI[of _ rs']) simp_all
qed

text \<open>
  C7 as worded (a list for every input) fails: an empty completion makes
  \<open>format_reward_func\<close> raise IndexError, one completion with no answer makes
  \<open>correctness_reward_func\<close> raise IndexError at \<open>answer[0]\<close> where the shorter length
  is zero, and a completion holding the lone surrogate U+D800 makes it raise
  UnicodeEncodeError when the report goes to a UTF-8 stream.
\<close>

theorem reward_list_shape_counterexample:
  "format_reward_func [[]] () = Inl IndexError \<and>
   fst (correctness_reward_func utf8 [[assistant (ustr ''What is 2+2?'')]]
          [[assistant (ustr ''<answer>4</answer>'')]] [] () []) = Inl IndexError \<and>
   fst (correctness_reward_func utf8 [[assistant (ustr ''What is 2+2?'')]]
          [[assistant [55296]]] [Some (ustr ''4'')] () []) = Inl UnicodeEncodeError"
proof (intro conjI)
  show "format_reward_func [[]] () = Inl IndexError" by code_simp
next
  have "report_of [[assistant (ustr ''What is 2+2?'')]]
          [[assistant (ustr ''<answer>4</answer>'')]] [] = Inl IndexError"
    by code_simp
  then show "fst (correctness_reward_func utf8 [[assistant (ustr ''What is 2+2?'')]]
          [[assistant (ustr ''<answer>4</answer>'')]] [] () []) = Inl IndexError"
    by (subst correctness_reward_func_by_report) simp
next
  let ?ps = "[[assistant (ustr ''What is 2+2?'')]]"
  let ?cs = "[[assistant [55296]]]"
  let ?as = "[Some (ustr ''4'')]"
  have wf: "list_all has_content ?cs"
    by (simp add: has_content_def first_content_def list_getitem_def assistant_def)
  have pr: "printable ?ps ?cs ?as" by (simp add: printable_def assistant_def)
  have "\<not> encodable_report utf8 ?ps ?cs ?as"
    by (simp add: encodable_report_def report_of_def report_def first_content_def
        list_getitem_def assistant_def utf8_def)
  with wf pr show "fst (correctness_reward_func utf8 ?ps ?cs ?as () []) = Inl UnicodeEncodeError"
    by (simp add: correctness_reward_func_encode_error_iff)
qed

text \<open>
  C1, amended.  For completions and answers of equal length, the \<open>i\<close>-th reward that
  \<open>correctness_reward_func\<close> returns is 2.0 exactly when \<open>extract_xml_answer\<close> of the
  \<open>i\<close>-th completion's content is the same string as the \<open>i\<close>-th ground truth, and 0.0
  otherwise: the comparison is of strings, not of the numbers they denote.
\<close>

theorem correctness_reward_func_scores:
  assumes "fst (correctness_reward_func encodable prompts completions answer kwargs out) = Inr rewards"
    and "length completions = length answer"
    and "i < length completions"
  shows "\<exists>c. first_content (completions ! i) = Inr c \<and>
             rewards ! i = (if Some (extract_xml_answer c) = answer ! i then 2 else 0)"
proof -
  from correctness_reward_func_nth[OF assms(1)]
  have "\<forall>i. i < length completions \<and> i < length answer \<longrightarrow>
          (\<exists>c. first_content (completions ! i) = Inr c \<and>
               rewards ! i = (if Some (extract_xml_answer c) = answer ! i then 2 else 0))"
    by blast
  moreover have "i < length answer" using assms(2,3) by simp
  ultimately show ?thesis using assms(3) by blast
qed

text \<open>The theorem at a batch with one right and one wrong answer.\<close>

theorem correctness_reward_func_scores_witness:
  "fst (correctness_reward_func utf8 [[assistant (ustr ''What is 2+2?'')]]
          [[assistant (ustr ''<reasoning>2 + 2 = 4</reasoning>\<newline><answer> 4 </answer>'')],
           [assistant (ustr ''<answer>04</answer>'')]]
          [Some (ustr ''4''), Some (ustr ''4'')] () []) = Inr [2, 0] \<and>
   extract_xml_answer (ustr ''<reasoning>2 + 2 = 4</reasoning>\<newline><answer> 4 </answer>'') = ustr ''4'' \<and>
   extract_xml_answer (ustr ''<answer>04</answer>'') \<noteq> ustr ''4''"
proof -
  let ?c0 = "ustr ''<reasoning>2 + 2 = 4</reasoning>\<newline><answer> 4 </answer>''"
  let ?c1 = "ustr ''<answer>04</answer>''"
  let ?ps = "[[assistant (ustr ''What is 2+2?'')]]"
  let ?cs = "[[assistant ?c0], [assistant ?c1]]"
  let ?as = "[Some (ustr ''4''), Some (ustr ''4'')]"
  have "encodable_report ascii ?ps ?cs ?as" by code_simp
  then have "encodable_report utf8 ?ps ?cs ?as"
    by (rule encodable_report_mono) (rule ascii_utf8)
  moreover have "encodable_report (\<lambda>c. True) ?ps ?cs ?as"
    using \<open>encodable_report ascii ?ps ?cs ?as\<close> by (rule encodable_report_mono) simp
  moreover have "fst (correctness_reward_func (\<lambda>c. True) ?ps ?cs ?as () []) = Inr [2, 0]"
    by code_simp
  ultimately have run: "fst (correctness_reward_func utf8 ?ps ?cs ?as () []) = Inr [2, 0]"
    using correctness_reward_func_encodable[of utf8 ?ps ?cs ?as "\<lambda>c. True" "()" "[]" "()" "[]"]
    by simp
  have len: "length ?cs = length ?as" by simp
  have f0: "first_content (?cs ! 0) = Inr ?c0" and f1: "first_content (?cs ! 1) = Inr ?c1"
    by (simp_all add: first_content_def list_getitem_def assistant_def)
  from correctness_reward_func_scores[OF run len, of 0] f0
  have "([2, 0] :: real list) ! 0 = (if Some (extract_xml_answer ?c0) = ?as ! 0 then 2 else 0)"
    by simp
  then have e0: "extract_xml_answer ?c0 = ustr ''4''" by (simp split: if_splits)
  from correctness_reward_func_scores[OF run len, of 1] f1
  have "([2, 0] :: real list) ! 1 = (if Some (extract_xml_answer ?c1) = ?as ! 1 then 2 else 0)"
    by simp
  then have e1: "extract_xml_answer ?c1 \<noteq> ustr ''4''" by (simp split: if_splits)
  from run e0 e1 show ?thesis by blast
qed

text \<open>
  C1 as worded (numeric correctness) fails: the extracted answer \<open>04\<close> denotes the same
  integer as the ground truth \<open>4\<close> and scores 0.0.
\<close>

theorem correctness_reward_func_numeric_counterexample:
  "extract_xml_answer (ustr ''<answer>04</answer>'') = ustr ''04'' \<and>
   numerically_equal (ustr ''04'') (Some (ustr ''4'')) \<and>
   fst (correctness_reward_func utf8 [[assistant (ustr ''What is 2+2?'')]]
          [[assistant (ustr ''<answer>04</answer>'')]] [Some (ustr ''4'')] () []) = Inr [0]"
proof (intro conjI)
  show "extract_xml_answer (ustr ''<answer>04</answer>'') = ustr ''04''" by code_simp
next
  show "numerically_equal (ustr ''04'') (Some (ustr ''4''))" by code_simp
next
  let ?ps = "[[assistant (ustr ''What is 2+2?'')]]"
  let ?cs = "[[assistant (ustr ''<answer>04</answer>'')]]"
  let ?as = "[Some (ustr ''4'')]"
  have a: "encodable_report ascii ?ps ?cs ?as" by code_simp
  then have "encodable_report utf8 ?ps ?cs ?as"
    by (rule encodable_report_mono) (rule ascii_utf8)
  moreover have "encodable_report (\<lambda>c. True) ?ps ?cs ?as"
    using a by (rule encodable_report_mono) simp
  moreover have "fst (correctness_reward_func (\<lambda>c. True) ?ps ?cs ?as () []) = Inr [0]"
    by code_simp
  ultimately show "fst (correctness_reward_func utf8 ?ps ?cs ?as () []) = Inr [0]"
    using correctness_reward_func_encodable[of utf8 ?ps ?cs ?as "\<lambda>c. True" "()" "[]" "()" "[]"]
    by simp
qed




section \<open>Facts about the timing wrappers\<close>

lemma wrapped_generate_and_score_raises:
  assumes "original_generate args w = (Inl e, w1)"
  shows "wrapped_generate_and_score original_generate args w = (Inl e, w1)"
  using assms by (simp add: wrapped_generate_and_score_def)

lemma wrapped_generate_and_score_idle:
  assumes "original_generate args w = (Inr result, w1)"
    and "generation_start_time (callback w1) = None"
  shows "wrapped_generate_and_score original_generate args w = (Inr result, w1)"
  using assms by (simp add: wrapped_generate_and_score_def)

lemma wrapped_generate_and_score_measures:
  assumes "original_generate args w = (Inr result, w1)"
    and "generation_start_time (callback w1) = Some t0"
  shows "wrapped_generate_and_score original_generate args w =
    (Inr result,
     w1\<lparr>callback := (callback w1)\<lparr>generation_start_time := None,
                                   backprop_start_time := Some (clock w1 (reads w1 + 1))\<rparr>,
        reads := reads w1 + 2,
        printed := printed w1 @ [GenerationCompleted (clock w1 (reads w1) - t0), StartingBackprop]\<rparr>)"
  using assms by (simp add: wrapped_generate_and_score_def time_time_def print_def Let_def)

lemma wrapped_generate_and_score_fst:
  "fst (wrapped_generate_and_score original_generate args w) = fst (original_generate args w)"
proof (cases "original_generate args w")
  case (Pair res w1)
  show ?thesis
  proof (cases res)
    case (Inl e)
    then show ?thesis using Pair by (simp add: wrapped_generate_and_score_raises)
  next
    case (Inr result)
    then show ?thesis using Pair
      by (cases "generation_start_time (callback w1)")
        (simp_all add: wrapped_generate_and_score_idle wrapped_generate_and_score_measures)
  qed
qed

lemma wrapped_compute_loss_eq:
  "wrapped_compute_loss original args w =
     (case original args (w\<lparr>reads := reads w + 1\<rparr>) of
        (Inl e, w2) \<Rightarrow> (Inl e, w2)
      | (Inr result, w2) \<Rightarrow>
          (Inr result,
           w2\<lparr>reads := reads w2 + 1,
              printed := printed w2 @ [LossComputation (clock w2 (reads w2) - clock w (reads w))]\<rparr>))"
  by (simp add: wrapped_compute_loss_def time_time_def print_def Let_def split: prod.splits sum.splits)

lemma patched_training_step_eq:
  "patched_training_step original args w =
     (case original args (w\<lparr>reads := reads w + 1\<rparr>) of
        (Inl e, w2) \<Rightarrow> (Inl e, w2)
      | (Inr loss, w2) \<Rightarrow>
          (Inr loss,
           w2\<lparr>reads := reads w2 + 1,
              printed := printed w2 @ [TrainingStep (clock w2 (reads w2) - clock w (reads w))]\<rparr>))"
  by (simp add: patched_training_step_def time_time_def print_def Let_def split: prod.splits sum.splits)

lemma wrapped_generate_and_score_frame:
  assumes "original_generate args w = (res, w1)"
  shows "other (snd (wrapped_generate_and_score original_generate args w)) = other w1 \<and>
         clock (snd (wrapped_generate_and_score original_generate args w)) = clock w1 \<and>
         step_count (callback (snd (wrapped_generate_and_score original_generate args w)))
           = step_count (callback w1) \<and>
         prefix (printed w1) (printed (snd (wrapped_generate_and_score original_generate args w)))"
proof (cases res)
  case (Inl e)
  then show ?thesis using assms by (simp add: wrapped_generate_and_score_raises)
next
  case (Inr result)
  then show ?thesis using assms
    by (cases "generation_start_time (callback w1)")
      (simp_all add: wrapped_generate_and_score_idle wrapped_generate_and_score_measures)
qed

lemma wrapped_compute_loss_frame:
  assumes "original args (snd (time_time w)) = (res, w1)"
  shows "fst (wrapped_compute_loss original args w) = res \<and>
         other (snd (wrapped_compute_loss original args w)) = other w1 \<and>
         clock (snd (wrapped_compute_loss original args w)) = clock w1 \<and>
         callback (snd (wrapped_compute_loss original args w)) = callback w1 \<and>
         prefix (printed w1) (printed (snd (wrapped_compute_loss original args w)))"
  using assms by (cases res) (simp_all add: wrapped_compute_loss_eq time_time_def)

lemma patched_training_step_frame:
  assumes "original args (snd (time_time w)) = (res, w1)"
  shows "fst (patched_training_step original args w) = res \<and>
         other (snd (patched_training_step original args w)) = other w1 \<and>
         clock (snd (patched_training_step original args w)) = clock w1 \<and>
         callback (snd (patched_training_step original args w)) = callback w1 \<and>
         prefix (printed w1) (printed (snd (patched_training_step original args w)))"
  using assms by (cases res) (simp_all add: patched_training_step_eq time_time_def)

lemma main_patch_slots:
  "generate_and_score_completions (main_patch trainer) =
     wrapped_generate_and_score (generate_and_score_completions trainer)"
  "compute_loss (main_patch trainer) = wrapped_compute_loss (compute_loss trainer)"
  "training_step (main_patch trainer) = patched_training_step (training_step trainer)"
  "training_step (patch_trainer trainer) = training_step trainer"
  by (simp_all add: main_patch_def patch_trainer_def Let_def)

lemmas example_defs = example_world_def example_method_def example_trainer_def
  after_step_begin_def after_generation_def init_callback_def

section \<open>Properties of the timing instrumentation\<close>

text \<open>
  C4.  With the trainer patched as \<open>main\<close> patches it, each replaced method returns
  what the method it wraps returns on the same arguments (a value or an exception), in
  the state the wrapper calls it in: the caller's state, after one reading of the clock
  for \<open>compute_loss\<close> and \<open>training_step\<close>.  The wrapper leaves the rest of the state
  as the original left it; it changes only the two timing fields of the callback, the
  output, and the number of clock readings.
\<close>

theorem instrumentation_transparent:
  "fst (generate_and_score_completions (main_patch trainer) a w)
     = fst (generate_and_score_completions trainer a w) \<and>
   fst (compute_loss (main_patch trainer) b w)
     = fst (compute_loss trainer b (snd (time_time w))) \<and>
   fst (training_step (main_patch trainer) c w)
     = fst (training_step trainer c (snd (time_time w))) \<and>
   other (snd (generate_and_score_completions (main_patch trainer) a w))
     = other (snd (generate_and_score_completions trainer a w)) \<and>
   other (snd (compute_loss (main_patch trainer) b w))
     = other (snd (compute_loss trainer b (snd (time_time w)))) \<and>
   other (snd (training_step (main_patch trainer) c w))
     = other (snd (training_step trainer c (snd (time_time w)))) \<and>
   step_count (callback (snd (generate_and_score_completions (main_patch trainer) a w)))
     = step_count (callback (snd (generate_and_score_completions trainer a w))) \<and>
   callback (snd (compute_loss (main_patch trainer) b w))
     = callback (snd (compute_loss trainer b (snd (time_time w)))) \<and>
   callback (snd (training_step (main_patch trainer) c w))
     = callback (snd (training_step trainer c (snd (time_time w)))) \<and>
   other (snd (time_time w)) = other w \<and> callback (snd (time_time w)) = callback w \<and>
   printed (snd (time_time w)) = printed w"
proof -
  obtain r1 w1 where g: "generate_and_score_completions trainer a w = (r1, w1)"
    by (cases "generate_and_score_completions trainer a w")
  obtain r2 w2 where l: "compute_loss trainer b (snd (time_time w)) = (r2, w2)"
    by (cases "compute_loss trainer b (snd (time_time w))")
  obtain r3 w3 where t: "training_step trainer c (snd (time_time w)) = (r3, w3)"
    by (cases "training_step trainer c (snd (time_time w))")
  note f1 = wrapped_generate_and_score_frame[of "generate_and_score_completions trainer" a w r1 w1, OF g]
  note v1 = wrapped_generate_and_score_fst[of "generate_and_score_completions trainer" a w]
  note f2 = wrapped_compute_loss_frame[of "compute_loss trainer" b w r2 w2, OF l]
  note f3 = patched_training_step_frame[of "training_step trainer" c w r3 w3, OF t]
  have tt: "other (snd (time_time w)) = other w \<and> callback (snd (time_time w)) = callback w \<and>
            printed (snd (time_time w)) = printed w"
    by (simp add: time_time_def)
  show ?thesis
    using f1 v1 f2 f3 tt by (simp add: main_patch_slots g l t)
qed

text \<open>The theorem at the example trainer.\<close>

theorem instrumentation_transparent_witness:
  "fst (generate_and_score_completions (main_patch example_trainer) 1 after_step_begin) = Inr 2 \<and>
   fst (compute_loss (main_patch example_trainer) 2 example_world) = Inr 3 \<and>
   fst (training_step (main_patch example_trainer) 3 example_world) = Inr 4 \<and>
   printed (snd (training_step (main_patch example_trainer) 3 example_world)) = [TrainingStep 2]"
proof -
  note tr = instrumentation_transparent[where trainer = example_trainer and a = 1 and b = 2 and c = 3]
  have "fst (generate_and_score_completions (main_patch example_trainer) 1 after_step_begin) = Inr 2"
    using tr[where w = after_step_begin] by (simp add: example_trainer_def example_method_def)
  moreover have "fst (compute_loss (main_patch example_trainer) 2 example_world) = Inr 3"
    using tr[where w = example_world] by (simp add: example_trainer_def example_method_def)
  moreover have "fst (training_step (main_patch example_trainer) 3 example_world) = Inr 4"
    using tr[where w = example_world] by (simp add: example_trainer_def example_method_def)
  moreover have "printed (snd (training_step (main_patch example_trainer) 3 example_world)) = [TrainingStep 2]"
    by (simp add: main_patch_slots patched_training_step_eq example_defs)
  ultimately show ?thesis by simp
qed

text \<open>
  C9, amended.  After every call of the wrapped \<open>_generate_and_score_completions\<close>
  that returns, \<open>generation_start_time\<close> is \<open>None\<close>.  A call whose original leaves the
  field \<open>None\<close> changes nothing, so a timestamp is measured once; an exception of the
  original passes through with the state as the original left it, a pending timestamp
  included.  A call whose original leaves a timestamp \<open>t0\<close> prints one generation time
  measured from \<open>t0\<close>, sets \<open>backprop_start_time\<close> and clears the timestamp;
  \<open>backprop_start_time\<close> changes in no other case.  The timestamp is the clock reading
  \<open>on_step_begin\<close> takes at a step that is a multiple of the accumulation steps.
\<close>

theorem timing_state_invariant:
  "(wrapped_generate_and_score g args w = (Inr result, w') \<longrightarrow>
      generation_start_time (callback w') = None) \<and>
   (g args w = (res, w1) \<and> generation_start_time (callback w1) = None \<longrightarrow>
      wrapped_generate_and_score g args w = (res, w1)) \<and>
   (g args w = (Inl e, w1) \<longrightarrow> wrapped_generate_and_score g args w = (Inl e, w1)) \<and>
   (g args w = (Inr result, w1) \<and> generation_start_time (callback w1) = Some t0 \<longrightarrow>
      wrapped_generate_and_score g args w =
        (Inr result,
         w1\<lparr>callback := (callback w1)\<lparr>generation_start_time := None,
                                       backprop_start_time := Some (clock w1 (reads w1 + 1))\<rparr>,
            reads := reads w1 + 2,
            printed := printed w1 @
              [GenerationCompleted (clock w1 (reads w1) - t0), StartingBackprop]\<rparr>)) \<and>
   (g args w = (res, w1) \<and>
    backprop_start_time (callback (snd (wrapped_generate_and_score g args w)))
      \<noteq> backprop_start_time (callback w1) \<longrightarrow>
      generation_start_time (callback w1) \<noteq> None \<and> (\<exists>r. res = Inr r)) \<and>
   (on_step_begin steps global_step w = (Inr (), w1) \<and> global_step mod steps = 0 \<longrightarrow>
      generation_start_time (callback w1) = Some (clock w (reads w)))"
proof (intro conjI impI)
  assume a: "wrapped_generate_and_score g args w = (Inr result, w')"
  obtain res w1 where g: "g args w = (res, w1)" by (cases "g args w")
  show "generation_start_time (callback w') = None"
  proof (cases res)
    case (Inl e)
    then show ?thesis using a g by (simp add: wrapped_generate_and_score_raises)
  next
    case (Inr r)
    then show ?thesis using a g
      by (cases "generation_start_time (callback w1)")
        (auto simp: wrapped_generate_and_score_idle wrapped_generate_and_score_measures)
  qed
next
  assume "g args w = (res, w1) \<and> generation_start_time (callback w1) = None"
  then show "wrapped_generate_and_score g args w = (res, w1)"
    by (cases res)
      (simp_all add: wrapped_generate_and_score_idle wrapped_generate_and_score_raises)
next
  assume "g args w = (Inl e, w1)"
  then show "wrapped_generate_and_score g args w = (Inl e, w1)"
    by (rule wrapped_generate_and_score_raises)
next
  assume "g args w = (Inr result, w1) \<and> generation_start_time (callback w1) = Some t0"
  then show "wrapped_generate_and_score g args w =
        (Inr result,
         w1\<lparr>callback := (callback w1)\<lparr>generation_start_time := None,
                                       backprop_start_time := Some (clock w1 (reads w1 + 1))\<rparr>,
            reads := reads w1 + 2,
            printed := printed w1 @
              [GenerationCompleted (clock w1 (reads w1) - t0), StartingBackprop]\<rparr>)"
    by (simp add: wrapped_generate_and_score_measures)
next
  assume a: "g args w = (res, w1) \<and>
    backprop_start_time (callback (snd (wrapped_generate_and_score g args w)))
      \<noteq> backprop_start_time (callback w1)"
  show "generation_start_time (callback w1) \<noteq> None"
  proof
    assume "generation_start_time (callback w1) = None"
    then have "wrapped_generate_and_score g args w = (res, w1)" using a
      by (cases res)
        (simp_all add: wrapped_generate_and_score_idle wrapped_generate_and_score_raises)
    then show False using a by simp
  qed
  show "\<exists>r. res = Inr r"
  proof (cases res)
    case (Inl e)
    then have "wrapped_generate_and_score g args w = (res, w1)" using a
      by (simp add: wrapped_generate_and_score_raises)
    then show ?thesis using a by simp
  next
    case (Inr r)
    then show ?thesis by blast
  qed
next
  assume "on_step_begin steps global_step w = (Inr (), w1) \<and> global_step mod steps = 0"
  then show "generation_start_time (callback w1) = Some (clock w (reads w))"
    by (auto simp: on_step_begin_def time_time_def print_def Let_def split: if_splits)
qed

text \<open>The theorem along the example run: step begin, a generation, a second generation.\<close>

theorem timing_state_invariant_witness:
  "on_step_begin 4 8 example_world = (Inr (), after_step_begin) \<and>
   generation_start_time (callback after_step_begin) = Some 0 \<and>
   wrapped_generate_and_score example_method 5 after_step_begin = (Inr 6, after_generation) \<and>
   generation_start_time (callback after_generation) = None \<and>
   wrapped_generate_and_score example_method 5 after_generation = (Inr 6, after_generation)"
proof -
  note inv = timing_state_invariant[where g = example_method and args = 5]
  have b: "on_step_begin 4 8 example_world = (Inr (), after_step_begin)"
    by (simp add: on_step_begin_def time_time_def print_def example_defs)
  have "generation_start_time (callback after_step_begin)
          = Some (clock example_world (reads example_world))"
    using inv[where steps = 4 and global_step = 8 and w = example_world and ?w1.0 = after_step_begin]
      b by simp
  then have s: "generation_start_time (callback after_step_begin) = Some 0"
    by (simp add: example_defs)
  have g1: "example_method 5 after_step_begin = (Inr 6, after_step_begin)"
    by (simp add: example_method_def)
  have m: "wrapped_generate_and_score example_method 5 after_step_begin = (Inr 6, after_generation)"
    using inv[where w = after_step_begin and result = 6 and ?w1.0 = after_step_begin and ?t0.0 = 0]
      g1 s by (simp add: example_defs)
  have n: "generation_start_time (callback after_generation) = None"
    using inv[where w = after_step_begin and result = 6 and w' = after_generation] m by simp
  have g2: "example_method 5 after_generation = (Inr 6, after_generation)"
    by (simp add: example_method_def)
  have i: "wrapped_generate_and_score example_method 5 after_generation = (Inr 6, after_generation)"
    using inv[where w = after_generation and res = "Inr 6" and ?w1.0 = after_generation] g2 n
    by simp
  from b s m n i show ?thesis by simp
qed

text \<open>
  C9 as worded (after every call) fails: when the original raises after
  \<open>on_step_begin\<close> has recorded a timestamp, the wrapped call ends with the timestamp
  still pending.
\<close>

theorem timing_state_invariant_counterexample:
  "on_step_begin 4 8 example_world = (Inr (), after_step_begin) \<and>
   wrapped_generate_and_score failing_method 5 after_step_begin = (Inl (), after_step_begin) \<and>
   generation_start_time
     (callback (snd (wrapped_generate_and_score failing_method 5 after_step_begin))) = Some 0"
proof -
  have b: "on_step_begin 4 8 example_world = (Inr (), after_step_begin)"
    by (simp add: on_step_begin_def time_time_def print_def example_defs)
  have "failing_method 5 after_step_begin = (Inl (), after_step_begin)"
    by (simp add: failing_method_def)
  then have r: "wrapped_generate_and_score failing_method 5 after_step_begin
                  = (Inl (), after_step_begin)"
    by (rule wrapped_generate_and_score_raises)
  have "generation_start_time (callback after_step_begin) = Some 0"
    by (simp add: after_step_begin_def)
  with b r show ?thesis by simp
qed

end
